theory Spec2Isabelle
  imports Complex_Main "HOL-Library.Word"
begin

section \<open>The StreamManager contract of AutoStream\<close>

text \<open>
  A shallow embedding of the contract \<^verbatim>\<open>StreamManager\<close> (\<^verbatim>\<open>createStream\<close>,
  \<^verbatim>\<open>processStreamPayment\<close>, \<^verbatim>\<open>cancelStream\<close>, \<^verbatim>\<open>pauseStream\<close>, \<^verbatim>\<open>resumeStream\<close>,
  \<^verbatim>\<open>getWithdrawableAmount\<close>, \<^verbatim>\<open>scheduleNextPayment\<close>).

  The source writes \<^verbatim>\<open>u64\<close> and \<^verbatim>\<open>u8\<close> everywhere and declares both, in its first lines,
  as aliases of \<^verbatim>\<open>number\<close> (\<^verbatim>\<open>declare type u64 = number\<close>, under the comment that these
  are mock imports to be replaced by the Massa ones). The contract is therefore embedded
  twice, over the same records and with the same branches:
  \<^item> with 64-bit unsigned integers, as the names say: \<open>+\<close>, \<open>-\<close> and \<open>*\<close> wrap around, \<open>div\<close>
    truncates (\<open>createStream\<close>, \<open>processStreamPayment\<close>, ...);
  \<^item> with numbers, as the declaration has it: double precision floating point, where nothing
    truncates or wraps, a difference can be negative and every result is rounded
    (\<open>createStream_num\<close>, \<open>processStreamPayment_num\<close>, ...).
  The properties of the checks, of the final payment and of the skipped payment are stated on
  the first embedding (their counterparts with numbers are among the auxiliary facts); the
  properties that depend on what the arithmetic computes are stated on the second.

  Common to both:
  \<^item> An \<^verbatim>\<open>Address\<close> is the string it wraps; \<^verbatim>\<open>equals\<close> is equality of the strings.
  \<^item> \<^verbatim>\<open>Storage\<close> holds one serialized \<^verbatim>\<open>StreamData\<close> under each key
    \<^verbatim>\<open>'stream_' + id\<close> and the counter under \<^verbatim>\<open>'stream_counter'\<close>; a key that was never
    set reads as the empty array. Serialization is taken to round-trip.
  \<^item> \<^verbatim>\<open>transferCoins\<close> and the deferred \<^verbatim>\<open>call\<close> are recorded in two logs, oldest first.
  \<^item> A failed \<^verbatim>\<open>assert\<close> throws: the operation returns \<open>Inl\<close> of the error together with
    the ledger as it stood when the assertion failed.
  \<^item> \<^verbatim>\<open>generateEvent\<close> only writes to the event log and is left out.
\<close>

subsection \<open>Data\<close>

type_synonym u64 = "64 word"
type_synonym u8 = "8 word"
type_synonym address = string

text \<open>
  The records take the type of \<^verbatim>\<open>u64\<close> values (\<open>'n\<close>) and of \<^verbatim>\<open>u8\<close> values (\<open>'t\<close>) as
  parameters.
\<close>

record ('n, 't) StreamData =
  sender :: address
  recipient :: address
  startTime :: 'n
  endTime :: 'n
  ratePerSecond :: 'n
  lastPaymentTime :: 'n
  totalAmount :: 'n
  withdrawnAmount :: 'n
  isPaused :: bool
  isCancelled :: bool
  streamType :: 't
  intervalSeconds :: 'n

text \<open>
  The part of the chain state that the contract reads and writes: the stream records, the
  stream counter (\<open>None\<close>: the key is absent), the coins sent out with \<^verbatim>\<open>transferCoins\<close>
  (receiver, amount) and the deferred calls of \<^verbatim>\<open>processStreamPayment\<close> scheduled with
  \<^verbatim>\<open>call\<close> (stream id, delay in milliseconds).
\<close>

record ('n, 't) ledger =
  streams :: "'n \<rightharpoonup> ('n, 't) StreamData"
  stream_counter :: "'n option"
  transfers :: "(address \<times> 'n) list"
  deferred :: "('n \<times> 'n) list"

text \<open>
  What the host tells one invocation: \<^verbatim>\<open>Context.caller()\<close>, \<^verbatim>\<open>Time.timestamp()\<close> and
  \<^verbatim>\<open>Context.transferredCoins().amount\<close>.
\<close>

record 'n invocation =
  caller :: address
  timestamp :: 'n
  transferredCoins :: 'n

text \<open>
  One constructor for each assertion message of the contract:
  \<^item> \<open>InvalidAmount\<close>: 'Must send coins to create stream'
  \<^item> \<open>InvalidDuration\<close>: 'Duration must be positive'
  \<^item> \<open>InvalidInterval\<close>: 'Interval must be positive'
  \<^item> \<open>DegenerateRate\<close>: 'Rate per second must be positive'
  \<^item> \<open>NotFound\<close>: 'Stream not found'
  \<^item> \<open>Unauthorized\<close>: 'Only stream creator can cancel', '... pause', '... resume'
  \<^item> \<open>Cancelled\<close>: 'Stream is cancelled'
  \<^item> \<open>Paused\<close>: 'Stream is paused'
  \<^item> \<open>AlreadyCancelled\<close>: 'Stream already cancelled'
  \<^item> \<open>AlreadyPaused\<close>: 'Stream already paused'
  \<^item> \<open>NotPaused\<close>: 'Stream is not paused'
\<close>

datatype error =
    InvalidAmount
  | InvalidDuration
  | InvalidInterval
  | DegenerateRate
  | NotFound
  | Unauthorized
  | Cancelled
  | Paused
  | AlreadyCancelled
  | AlreadyPaused
  | NotPaused

text \<open>
  The entry points that change the ledger, as commands; \<open>target\<close> is the stream id a command
  is called on (\<open>Create\<close> takes none).
\<close>

datatype ('n, 't) command =
    Create address 'n 't 'n
  | Process 'n
  | Cancel 'n
  | Pause 'n
  | Resume 'n

fun target :: "('n, 't) command \<Rightarrow> 'n option" where
  "target (Create rcpt duration stype interval) = None"
| "target (Process streamId) = Some streamId"
| "target (Cancel streamId) = Some streamId"
| "target (Pause streamId) = Some streamId"
| "target (Resume streamId) = Some streamId"

subsection \<open>Host functions\<close>

definition transferCoins :: "address \<Rightarrow> 'n \<Rightarrow> ('n, 't) ledger \<Rightarrow> ('n, 't) ledger" where
  "transferCoins to amount L = L\<lparr>transfers := transfers L @ [(to, amount)]\<rparr>"

definition storeStream ::
  "'n \<Rightarrow> ('n, 't) StreamData \<Rightarrow> ('n, 't) ledger \<Rightarrow> ('n, 't) ledger" where
  \<comment> \<open>\<^verbatim>\<open>Storage.set(STREAM_KEY_PREFIX + streamId.toString(), stream.serialize())\<close>\<close>
  "storeStream streamId stream L = L\<lparr>streams := (streams L)(streamId \<mapsto> stream)\<rparr>"

section \<open>The contract with 64-bit integers\<close>

definition scheduleNextPayment :: "u64 \<Rightarrow> u64 \<Rightarrow> (u64, u8) ledger \<Rightarrow> (u64, u8) ledger" where
  \<comment> \<open>the delay handed to \<^verbatim>\<open>call\<close> is \<^verbatim>\<open>intervalSeconds * 1000\<close>\<close>
  "scheduleNextPayment streamId interval L =
     L\<lparr>deferred := deferred L @ [(streamId, interval * 1000)]\<rparr>"

subsection \<open>Operations\<close>


definition processStreamPayment ::
  "u64 invocation \<Rightarrow> u64 \<Rightarrow> (u64, u8) ledger \<Rightarrow> (error + unit) \<times> (u64, u8) ledger" where
  "processStreamPayment ctx streamId L =
     (case streams L streamId of
        None \<Rightarrow> (Inl NotFound, L)
      | Some stream \<Rightarrow>
          if isCancelled stream then (Inl Cancelled, L)
          else if isPaused stream then (Inl Paused, L)
          else
            let currentTime = timestamp ctx in
            if endTime stream \<le> currentTime then
              let remainingAmount = totalAmount stream - withdrawnAmount stream;
                  L1 = (if 0 < remainingAmount
                        then transferCoins (recipient stream) remainingAmount L else L);
                  stream1 = (if 0 < remainingAmount
                        then stream\<lparr>withdrawnAmount := totalAmount stream\<rparr> else stream);
                  stream2 = stream1\<lparr>isCancelled := True\<rparr>
              in (Inr (), storeStream streamId stream2 L1)
            else
              let timeSinceLastPayment = currentTime - lastPaymentTime stream;
                  paymentAmount = (timeSinceLastPayment * ratePerSecond stream) div 1000;
                  pays = (0 < paymentAmount
                          \<and> withdrawnAmount stream + paymentAmount \<le> totalAmount stream);
                  stream1 = (if pays
                        then stream\<lparr>withdrawnAmount := withdrawnAmount stream + paymentAmount,
                                    lastPaymentTime := currentTime\<rparr>
                        else stream);
                  L1 = (if pays
                        then storeStream streamId stream1
                               (transferCoins (recipient stream) paymentAmount L)
                        else L);
                  L2 = (if currentTime < endTime stream1 \<and> \<not> isCancelled stream1
                           \<and> \<not> isPaused stream1
                        then scheduleNextPayment streamId (intervalSeconds stream1) L1
                        else L1)
              in (Inr (), L2))"

definition cancelStream ::
  "u64 invocation \<Rightarrow> u64 \<Rightarrow> (u64, u8) ledger \<Rightarrow> (error + unit) \<times> (u64, u8) ledger" where
  "cancelStream ctx streamId L =
     (case streams L streamId of
        None \<Rightarrow> (Inl NotFound, L)
      | Some stream \<Rightarrow>
          if sender stream \<noteq> caller ctx then (Inl Unauthorized, L)
          else if isCancelled stream then (Inl AlreadyCancelled, L)
          else
            let remainingAmount = totalAmount stream - withdrawnAmount stream;
                stream1 = stream\<lparr>isCancelled := True\<rparr>;
                L1 = storeStream streamId stream1 L;
                L2 = (if 0 < remainingAmount
                      then transferCoins (sender stream1) remainingAmount L1 else L1)
            in (Inr (), L2))"

definition pauseStream ::
  "u64 invocation \<Rightarrow> u64 \<Rightarrow> (u64, u8) ledger \<Rightarrow> (error + unit) \<times> (u64, u8) ledger" where
  "pauseStream ctx streamId L =
     (case streams L streamId of
        None \<Rightarrow> (Inl NotFound, L)
      | Some stream \<Rightarrow>
          if sender stream \<noteq> caller ctx then (Inl Unauthorized, L)
          else if isCancelled stream then (Inl Cancelled, L)
          else if isPaused stream then (Inl AlreadyPaused, L)
          else (Inr (), storeStream streamId (stream\<lparr>isPaused := True\<rparr>) L))"

definition resumeStream ::
  "u64 invocation \<Rightarrow> u64 \<Rightarrow> (u64, u8) ledger \<Rightarrow> (error + unit) \<times> (u64, u8) ledger" where
  "resumeStream ctx streamId L =
     (case streams L streamId of
        None \<Rightarrow> (Inl NotFound, L)
      | Some stream \<Rightarrow>
          if sender stream \<noteq> caller ctx then (Inl Unauthorized, L)
          else if isCancelled stream then (Inl Cancelled, L)
          else if \<not> isPaused stream then (Inl NotPaused, L)
          else
            let stream1 = stream\<lparr>isPaused := False, lastPaymentTime := timestamp ctx\<rparr>;
                L1 = storeStream streamId stream1 L;
                L2 = scheduleNextPayment streamId (intervalSeconds stream1) L1
            in (Inr (), L2))"

subsection \<open>Sequences of invocations\<close>



subsection \<open>Bookkeeping\<close>



subsection \<open>A sample ledger\<close>

text \<open>
  The storage right after deployment (the constructor wrote the counter 0), an invocation by
  the sender at a given time, and the stream of 3600 coins over 3600 seconds with a payment
  every 60 seconds, as \<^verbatim>\<open>createStream\<close> stores it at time 0 under id 1.
\<close>

definition fresh_ledger :: "(u64, u8) ledger" where
  "fresh_ledger = \<lparr>streams = Map.empty, stream_counter = Some 0, transfers = [], deferred = []\<rparr>"

definition alice_at :: "u64 \<Rightarrow> u64 invocation" where
  "alice_at t = \<lparr>caller = ''alice'', timestamp = t, transferredCoins = 0\<rparr>"


definition sample_stream :: "(u64, u8) StreamData" where
  "sample_stream =
     \<lparr>sender = ''alice'', recipient = ''bob'', startTime = 0, endTime = 3600000,
      ratePerSecond = 1, lastPaymentTime = 0, totalAmount = 3600, withdrawnAmount = 0,
      isPaused = False, isCancelled = False, streamType = 0, intervalSeconds = 60\<rparr>"

definition sample_ledger :: "(u64, u8) StreamData \<Rightarrow> (u64, u8) ledger" where
  "sample_ledger s =
     \<lparr>streams = [1 \<mapsto> s], stream_counter = Some 1, transfers = [], deferred = [(1, 60000)]\<rparr>"

section \<open>The contract with numbers\<close>

subsection \<open>Double precision arithmetic\<close>

text \<open>
  A \<^verbatim>\<open>number\<close> is a double precision floating point value, taken here as the real number it
  stands for. \<open>binary64 x\<close> is the double nearest to \<open>x\<close>, the even one of two that are equally
  near: \<open>expo x\<close> is the exponent of the binade of \<open>x\<close> (not below the one of the subnormal
  numbers), \<open>ulp x\<close> the distance of neighbouring doubles there, \<open>rne\<close> rounds to the nearest
  integer, half way to the even one. Each arithmetic operation of the source is the exact
  operation followed by this rounding; comparisons are exact.

  The exponent is not bounded above: there is no \<^verbatim>\<open>Infinity\<close> and no \<^verbatim>\<open>NaN\<close>, and a value
  beyond the largest double is rounded to 53 significant bits like any other. The two zeros
  are one.
\<close>

type_synonym number = real

definition expo :: "real \<Rightarrow> int" where
  "expo x = max \<lfloor>log 2 \<bar>x\<bar>\<rfloor> (- 1022)"

definition ulp :: "real \<Rightarrow> real" where
  "ulp x = 2 powr of_int (expo x - 52)"

definition rne :: "real \<Rightarrow> int" where
  "rne y = (let f = \<lfloor>y\<rfloor> in
            if y - of_int f < 1 / 2 then f
            else if 1 / 2 < y - of_int f then f + 1
            else if even f then f else f + 1)"

definition binary64 :: "real \<Rightarrow> number" where
  "binary64 x = of_int (rne (x / ulp x)) * ulp x"

definition nadd :: "number \<Rightarrow> number \<Rightarrow> number" where
  "nadd a b = binary64 (a + b)"

definition nsub :: "number \<Rightarrow> number \<Rightarrow> number" where
  "nsub a b = binary64 (a - b)"

definition nmul :: "number \<Rightarrow> number \<Rightarrow> number" where
  "nmul a b = binary64 (a * b)"

definition ndiv :: "number \<Rightarrow> number \<Rightarrow> number" where
  "ndiv a b = binary64 (a / b)"

subsection \<open>Operations\<close>

text \<open>
  The same functions as above, line by line, with the arithmetic of numbers. A \<^verbatim>\<open>u8\<close> is a
  number as well.
\<close>

definition scheduleNextPayment_num ::
  "number \<Rightarrow> number \<Rightarrow> (number, number) ledger \<Rightarrow> (number, number) ledger" where
  "scheduleNextPayment_num streamId interval L =
     L\<lparr>deferred := deferred L @ [(streamId, nmul interval 1000)]\<rparr>"

definition createStream_num ::
  "number invocation \<Rightarrow> address \<Rightarrow> number \<Rightarrow> number \<Rightarrow> number \<Rightarrow> (number, number) ledger
     \<Rightarrow> (error + number) \<times> (number, number) ledger" where
  "createStream_num ctx rcpt duration stype interval L =
     (let total = transferredCoins ctx in
      if \<not> 0 < total then (Inl InvalidAmount, L)
      else if \<not> 0 < duration then (Inl InvalidDuration, L)
      else if \<not> 0 < interval then (Inl InvalidInterval, L)
      else
        let rate = ndiv total duration in
        if \<not> 0 < rate then (Inl DegenerateRate, L)
        else
          let streamId = (case stream_counter L of None \<Rightarrow> 0 | Some c \<Rightarrow> c);
              newStreamId = nadd streamId 1;
              L1 = L\<lparr>stream_counter := Some newStreamId\<rparr>;
              currentTime = timestamp ctx;
              stream = \<lparr>sender = caller ctx,
                        recipient = rcpt,
                        startTime = currentTime,
                        endTime = nadd currentTime (nmul duration 1000),
                        ratePerSecond = rate,
                        lastPaymentTime = currentTime,
                        totalAmount = total,
                        withdrawnAmount = 0,
                        isPaused = False,
                        isCancelled = False,
                        streamType = stype,
                        intervalSeconds = interval\<rparr>;
              L2 = storeStream newStreamId stream L1;
              L3 = scheduleNextPayment_num newStreamId interval L2
          in (Inr newStreamId, L3))"

definition processStreamPayment_num ::
  "number invocation \<Rightarrow> number \<Rightarrow> (number, number) ledger
     \<Rightarrow> (error + unit) \<times> (number, number) ledger" where
  "processStreamPayment_num ctx streamId L =
     (case streams L streamId of
        None \<Rightarrow> (Inl NotFound, L)
      | Some stream \<Rightarrow>
          if isCancelled stream then (Inl Cancelled, L)
          else if isPaused stream then (Inl Paused, L)
          else
            let currentTime = timestamp ctx in
            if endTime stream \<le> currentTime then
              let remainingAmount = nsub (totalAmount stream) (withdrawnAmount stream);
                  L1 = (if 0 < remainingAmount
                        then transferCoins (recipient stream) remainingAmount L else L);
                  stream1 = (if 0 < remainingAmount
                        then stream\<lparr>withdrawnAmount := totalAmount stream\<rparr> else stream);
                  stream2 = stream1\<lparr>isCancelled := True\<rparr>
              in (Inr (), storeStream streamId stream2 L1)
            else
              let timeSinceLastPayment = nsub currentTime (lastPaymentTime stream);
                  paymentAmount = ndiv (nmul timeSinceLastPayment (ratePerSecond stream)) 1000;
                  pays = (0 < paymentAmount
                          \<and> nadd (withdrawnAmount stream) paymentAmount \<le> totalAmount stream);
                  stream1 = (if pays
                        then stream\<lparr>withdrawnAmount := nadd (withdrawnAmount stream) paymentAmount,
                                    lastPaymentTime := currentTime\<rparr>
                        else stream);
                  L1 = (if pays
                        then storeStream streamId stream1
                               (transferCoins (recipient stream) paymentAmount L)
                        else L);
                  L2 = (if currentTime < endTime stream1 \<and> \<not> isCancelled stream1
                           \<and> \<not> isPaused stream1
                        then scheduleNextPayment_num streamId (intervalSeconds stream1) L1
                        else L1)
              in (Inr (), L2))"

definition cancelStream_num ::
  "number invocation \<Rightarrow> number \<Rightarrow> (number, number) ledger
     \<Rightarrow> (error + unit) \<times> (number, number) ledger" where
  "cancelStream_num ctx streamId L =
     (case streams L streamId of
        None \<Rightarrow> (Inl NotFound, L)
      | Some stream \<Rightarrow>
          if sender stream \<noteq> caller ctx then (Inl Unauthorized, L)
          else if isCancelled stream then (Inl AlreadyCancelled, L)
          else
            let remainingAmount = nsub (totalAmount stream) (withdrawnAmount stream);
                stream1 = stream\<lparr>isCancelled := True\<rparr>;
                L1 = storeStream streamId stream1 L;
                L2 = (if 0 < remainingAmount
                      then transferCoins (sender stream1) remainingAmount L1 else L1)
            in (Inr (), L2))"

definition pauseStream_num ::
  "number invocation \<Rightarrow> number \<Rightarrow> (number, number) ledger
     \<Rightarrow> (error + unit) \<times> (number, number) ledger" where
  "pauseStream_num ctx streamId L =
     (case streams L streamId of
        None \<Rightarrow> (Inl NotFound, L)
      | Some stream \<Rightarrow>
          if sender stream \<noteq> caller ctx then (Inl Unauthorized, L)
          else if isCancelled stream then (Inl Cancelled, L)
          else if isPaused stream then (Inl AlreadyPaused, L)
          else (Inr (), storeStream streamId (stream\<lparr>isPaused := True\<rparr>) L))"

definition resumeStream_num ::
  "number invocation \<Rightarrow> number \<Rightarrow> (number, number) ledger
     \<Rightarrow> (error + unit) \<times> (number, number) ledger" where
  "resumeStream_num ctx streamId L =
     (case streams L streamId of
        None \<Rightarrow> (Inl NotFound, L)
      | Some stream \<Rightarrow>
          if sender stream \<noteq> caller ctx then (Inl Unauthorized, L)
          else if isCancelled stream then (Inl Cancelled, L)
          else if \<not> isPaused stream then (Inl NotPaused, L)
          else
            let stream1 = stream\<lparr>isPaused := False, lastPaymentTime := timestamp ctx\<rparr>;
                L1 = storeStream streamId stream1 L;
                L2 = scheduleNextPayment_num streamId (intervalSeconds stream1) L1
            in (Inr (), L2))"


subsection \<open>Sequences of invocations\<close>

fun exec_num ::
  "number invocation \<times> (number, number) command \<Rightarrow> (number, number) ledger
     \<Rightarrow> (number, number) ledger" where
  "exec_num (ctx, Create rcpt duration stype interval) L =
     snd (createStream_num ctx rcpt duration stype interval L)"
| "exec_num (ctx, Process streamId) L = snd (processStreamPayment_num ctx streamId L)"
| "exec_num (ctx, Cancel streamId) L = snd (cancelStream_num ctx streamId L)"
| "exec_num (ctx, Pause streamId) L = snd (pauseStream_num ctx streamId L)"
| "exec_num (ctx, Resume streamId) L = snd (resumeStream_num ctx streamId L)"

fun run_num ::
  "(number invocation \<times> (number, number) command) list \<Rightarrow> (number, number) ledger
     \<Rightarrow> (number, number) ledger" where
  "run_num [] L = L"
| "run_num (c # cs) L = run_num cs (exec_num c L)"

text \<open>
  The clock never goes back: starting from time \<open>t\<close>, every invocation of the list sees a
  timestamp that is at least the one before it.
\<close>

fun clock_monotonic ::
  "number \<Rightarrow> (number invocation \<times> (number, number) command) list \<Rightarrow> bool" where
  "clock_monotonic t [] = True"
| "clock_monotonic t (c # cs) =
     (t \<le> timestamp (fst c) \<and> clock_monotonic (timestamp (fst c)) cs)"


subsection \<open>Bookkeeping\<close>

text \<open>The coins of a list of transfers, added up exactly.\<close>

definition coins_sent_num :: "(address \<times> number) list \<Rightarrow> real" where
  "coins_sent_num ts = sum_list (map snd ts)"

text \<open>
  What has left the escrow of a stream: everything once the stream is terminal, the
  withdrawn amount before.
\<close>

definition settled_num :: "(number, number) StreamData \<Rightarrow> real" where
  "settled_num s = (if isCancelled s then totalAmount s else withdrawnAmount s)"

definition same_terms :: "('n, 't) StreamData \<Rightarrow> ('n, 't) StreamData \<Rightarrow> bool" where
  "same_terms s s' \<longleftrightarrow>
     sender s' = sender s \<and> recipient s' = recipient s \<and> startTime s' = startTime s \<and>
     endTime s' = endTime s \<and> ratePerSecond s' = ratePerSecond s \<and>
     totalAmount s' = totalAmount s \<and> streamType s' = streamType s \<and>
     intervalSeconds s' = intervalSeconds s"

text \<open>
  The id \<open>i\<close> was handed out by the counter, and \<open>n\<close> more streams can be created before the
  counter reaches \<open>2 ^ 53\<close>, where adding 1 to a number no longer changes it.
\<close>

definition id_issued_num :: "number \<Rightarrow> nat \<Rightarrow> (number, number) ledger \<Rightarrow> bool" where
  "id_issued_num i n L \<longleftrightarrow>
     (\<exists>c. stream_counter L = Some c \<and> c \<in> \<nat> \<and> i \<le> c \<and> c + of_nat n \<le> 2 ^ 53)"

text \<open>
  The invariant of a stream under a clock that does not go back, at time \<open>t\<close>: the cap holds,
  the withdrawn amount of a live stream is a double, and the checkpoint is not ahead of the
  clock.
\<close>

definition sound :: "number \<Rightarrow> (number, number) StreamData \<Rightarrow> bool" where
  "sound t s \<longleftrightarrow>
     withdrawnAmount s \<le> totalAmount s \<and>
     (\<not> isCancelled s \<longrightarrow> binary64 (withdrawnAmount s) = withdrawnAmount s) \<and>
     lastPaymentTime s \<le> t"

text \<open>A later record of the same stream: same terms, nothing went down.\<close>

definition grows :: "(number, number) StreamData \<Rightarrow> (number, number) StreamData \<Rightarrow> bool" where
  "grows s s' \<longleftrightarrow>
     same_terms s s' \<and> withdrawnAmount s \<le> withdrawnAmount s' \<and>
     lastPaymentTime s \<le> lastPaymentTime s' \<and> (isCancelled s \<longrightarrow> s' = s)"

text \<open>
  Whole-number runs. The terms of a stream are whole when the coins, the duration in seconds
  and their quotient are integers, the stream starts on a whole millisecond, and the
  products that the contract forms stay within \<open>2 ^ 53\<close>, the range where every integer is a
  double. A timestamp is on a second of the stream when it is a whole number of seconds
  after the start. No such run rounds anything.
\<close>

definition whole_terms :: "number invocation \<Rightarrow> number \<Rightarrow> bool" where
  "whole_terms ctx duration \<longleftrightarrow>
     transferredCoins ctx \<in> \<int> \<and> duration \<in> \<int> \<and> transferredCoins ctx / duration \<in> \<int> \<and>
     timestamp ctx \<in> \<int> \<and> 0 \<le> timestamp ctx \<and>
     1000 * transferredCoins ctx \<le> 2 ^ 53 \<and> timestamp ctx + 1000 * duration \<le> 2 ^ 53"

definition on_second :: "number \<Rightarrow> number \<Rightarrow> bool" where
  "on_second t0 t \<longleftrightarrow> t \<in> \<int> \<and> t0 \<le> t \<and> t \<le> 2 ^ 53 \<and> (t - t0) / 1000 \<in> \<int>"

definition whole_seconds ::
  "number \<Rightarrow> (number invocation \<times> (number, number) command) list \<Rightarrow> bool" where
  "whole_seconds t0 cs \<longleftrightarrow> list_all (\<lambda>c. on_second t0 (timestamp (fst c))) cs"

definition whole_stream :: "(number, number) StreamData \<Rightarrow> bool" where
  "whole_stream s \<longleftrightarrow>
     totalAmount s \<in> \<int> \<and> 1000 * totalAmount s \<le> 2 ^ 53 \<and>
     ratePerSecond s \<in> \<int> \<and> 0 < ratePerSecond s \<and>
     startTime s \<in> \<int> \<and> 0 \<le> startTime s \<and> endTime s \<in> \<int> \<and> endTime s \<le> 2 ^ 53 \<and>
     ratePerSecond s * (endTime s - startTime s) \<le> 1000 * totalAmount s \<and>
     withdrawnAmount s \<in> \<int> \<and> 0 \<le> withdrawnAmount s \<and>
     withdrawnAmount s \<le> totalAmount s \<and>
     on_second (startTime s) (lastPaymentTime s)"

text \<open>
  One invocation took the ledger \<open>L\<close> to \<open>L'\<close>, writing the record \<open>s'\<close> of stream \<open>i\<close> and
  sending the transfers \<open>new\<close>; and what these transfers have to be: to the recipient or the
  sender, and as many coins as left the escrow.
\<close>

definition touches_only ::
  "'n \<Rightarrow> ('n, 't) ledger \<Rightarrow> ('n, 't) ledger \<Rightarrow> ('n, 't) StreamData \<Rightarrow> (address \<times> 'n) list
     \<Rightarrow> bool" where
  "touches_only i L L' s' new \<longleftrightarrow>
     streams L' = (streams L)(i \<mapsto> s') \<and> transfers L' = transfers L @ new \<and>
     stream_counter L' = stream_counter L"

definition settles ::
  "(number, number) StreamData \<Rightarrow> (address \<times> number) list \<Rightarrow> (number, number) StreamData
     \<Rightarrow> bool" where
  "settles s new s' \<longleftrightarrow>
     same_terms s s' \<and> (isCancelled s \<longrightarrow> s' = s \<and> new = []) \<and>
     coins_sent_num new + settled_num s = settled_num s' \<and>
     (\<forall>t \<in> set new. fst t = recipient s \<or> fst t = sender s)"

subsection \<open>Sample ledgers\<close>

text \<open>
  The fixtures of the first embedding again, with numbers (the coins are a parameter), and a
  second stream: 1 coin over 10 seconds, paid every second. Its rate is the double nearest
  to \<open>1 / 10\<close>, which is a little more than \<open>1 / 10\<close>; \<open>dime_paid\<close> is what three payments of
  this amount add up to in numbers, \<open>dime_refund\<close> is the rest of the coin.
\<close>

definition fresh_ledger_num :: "(number, number) ledger" where
  "fresh_ledger_num =
     \<lparr>streams = Map.empty, stream_counter = Some 0, transfers = [], deferred = []\<rparr>"

definition alice_at_num :: "number \<Rightarrow> number invocation" where
  "alice_at_num t = \<lparr>caller = ''alice'', timestamp = t, transferredCoins = 0\<rparr>"

definition alice_funds_num :: "number \<Rightarrow> number invocation" where
  "alice_funds_num coins = \<lparr>caller = ''alice'', timestamp = 0, transferredCoins = coins\<rparr>"

definition sample_stream_num :: "(number, number) StreamData" where
  "sample_stream_num =
     \<lparr>sender = ''alice'', recipient = ''bob'', startTime = 0, endTime = 3600000,
      ratePerSecond = 1, lastPaymentTime = 0, totalAmount = 3600, withdrawnAmount = 0,
      isPaused = False, isCancelled = False, streamType = 0, intervalSeconds = 60\<rparr>"

definition sample_ledger_num :: "(number, number) StreamData \<Rightarrow> (number, number) ledger" where
  "sample_ledger_num s =
     \<lparr>streams = [1 \<mapsto> s], stream_counter = Some 1, transfers = [], deferred = [(1, 60000)]\<rparr>"

definition dime_rate :: number where
  "dime_rate = 7205759403792794 / 2 ^ 56"

definition dime_paid :: number where
  "dime_paid = 5404319552844596 / 2 ^ 54"

definition dime_refund :: number where
  "dime_refund = 6305039478318694 / 2 ^ 53"

definition dime_stream :: "(number, number) StreamData" where
  "dime_stream =
     \<lparr>sender = ''alice'', recipient = ''bob'', startTime = 0, endTime = 10000,
      ratePerSecond = dime_rate, lastPaymentTime = 0, totalAmount = 1,
      withdrawnAmount = 0, isPaused = False, isCancelled = False, streamType = 0,
      intervalSeconds = 1\<rparr>"

definition dime_ledger :: "(number, number) ledger" where
  "dime_ledger =
     \<lparr>streams = [1 \<mapsto> dime_stream], stream_counter = Some 1, transfers = [],
      deferred = [(1, 1000)]\<rparr>"

section \<open>Auxiliary facts\<close>

subsection \<open>Rounding to a double\<close>

lemma rne_of_int [simp]: "rne (of_int k) = k"
  by (simp add: rne_def)

lemma rne_0 [simp]: "rne 0 = 0"
  using rne_of_int [of 0] by simp

lemma rne_bounds: "\<lfloor>y\<rfloor> \<le> rne y \<and> rne y \<le> \<lfloor>y\<rfloor> + 1"
  by (simp add: rne_def Let_def)

lemma rne_mono: "x \<le> y \<Longrightarrow> rne x \<le> rne y"
proof -
  assume xy: "x \<le> y"
  then have f: "\<lfloor>x\<rfloor> \<le> \<lfloor>y\<rfloor>" by (rule floor_mono)
  show ?thesis
  proof (cases "\<lfloor>x\<rfloor> = \<lfloor>y\<rfloor>")
    case True
    with xy show ?thesis by (auto simp: rne_def Let_def)
  next
    case False
    with f have "\<lfloor>x\<rfloor> + 1 \<le> \<lfloor>y\<rfloor>" by simp
    with rne_bounds[of x] rne_bounds[of y] show ?thesis by linarith
  qed
qed

lemma ulp_pos [simp]: "0 < ulp x"
  by (simp add: ulp_def)

lemma binary64_0 [simp]: "binary64 0 = 0"
  by (simp add: binary64_def)

lemma binary64_nonneg: "0 \<le> x \<Longrightarrow> 0 \<le> binary64 x"
proof -
  assume "0 \<le> x"
  then have "0 \<le> x / ulp x" by (simp add: divide_nonneg_pos)
  from rne_mono[OF this] have "0 \<le> rne (x / ulp x)" by simp
  then have "0 \<le> real_of_int (rne (x / ulp x))" by simp
  moreover have "0 \<le> ulp x" by (simp add: ulp_def)
  ultimately show ?thesis unfolding binary64_def by (rule mult_nonneg_nonneg)
qed

lemma binary64_nonpos: "x \<le> 0 \<Longrightarrow> binary64 x \<le> 0"
proof -
  assume "x \<le> 0"
  then have "x / ulp x \<le> 0" by (simp add: divide_nonpos_pos)
  from rne_mono[OF this] have "rne (x / ulp x) \<le> 0" by simp
  then have "real_of_int (rne (x / ulp x)) \<le> 0" by simp
  moreover have "0 \<le> ulp x" by (simp add: ulp_def)
  ultimately show ?thesis unfolding binary64_def by (rule mult_nonpos_nonneg)
qed

text \<open>binade facts\<close>

lemma expo_upper: "x \<noteq> 0 \<Longrightarrow> \<bar>x\<bar> < 2 powr of_int (expo x + 1)"
proof -
  assume "x \<noteq> 0"
  then have p: "0 < \<bar>x\<bar>" by simp
  let ?l = "\<lfloor>log 2 \<bar>x\<bar>\<rfloor>"
  from floor_log_eq_powr_iff[OF p, of 2 ?l] have "\<bar>x\<bar> < 2 powr (of_int ?l + 1)" by simp
  also have "\<dots> \<le> 2 powr of_int (expo x + 1)"
    by (simp add: expo_def)
  finally show ?thesis .
qed

lemma expo_lower: "x \<noteq> 0 \<Longrightarrow> - 1022 < expo x \<Longrightarrow> 2 powr of_int (expo x) \<le> \<bar>x\<bar>"
proof -
  assume "x \<noteq> 0" and e: "- 1022 < expo x"
  then have p: "0 < \<bar>x\<bar>" by simp
  let ?l = "\<lfloor>log 2 \<bar>x\<bar>\<rfloor>"
  from e have "expo x = ?l" by (simp add: expo_def max_def split: if_splits)
  moreover from floor_log_eq_powr_iff[OF p, of 2 ?l] have "2 powr of_int ?l \<le> \<bar>x\<bar>" by simp
  ultimately show ?thesis by simp
qed

lemma expo_ge: "- 1022 \<le> expo x"
  by (simp add: expo_def)

lemma expo_eqI:
  assumes "2 powr of_int e \<le> \<bar>x\<bar>" "\<bar>x\<bar> < 2 powr of_int (e + 1)" "- 1022 \<le> e"
  shows "expo x = e"
proof -
  have "(0::real) < 2 powr of_int e" by simp
  from this assms(1) have p: "0 < \<bar>x\<bar>" by (rule less_le_trans)
  from floor_log_eq_powr_iff[OF p, of 2 e] assms have "\<lfloor>log 2 \<bar>x\<bar>\<rfloor> = e" by simp
  with assms(3) show ?thesis by (simp add: expo_def)
qed

lemma expo_mono:
  assumes "x \<noteq> 0" "\<bar>x\<bar> \<le> \<bar>y\<bar>"
  shows "expo x \<le> expo y"
proof -
  from assms have "0 < \<bar>x\<bar>" by simp
  with assms(2) have "log 2 \<bar>x\<bar> \<le> log 2 \<bar>y\<bar>" by simp
  then have "\<lfloor>log 2 \<bar>x\<bar>\<rfloor> \<le> \<lfloor>log 2 \<bar>y\<bar>\<rfloor>" by (rule floor_mono)
  then show ?thesis by (simp add: expo_def)
qed

lemma two_powr_int_nonneg: "0 \<le> n \<Longrightarrow> 2 powr of_int n = (2::real) ^ nat n"
  by (simp add: powr_real_of_int)

lemma ulp_positive: "0 < ulp x" by (simp add: ulp_def)

lemma divide_times_cancel:
  fixes a u :: real
  assumes "u \<noteq> 0"
  shows "a / u * u = a"
  using assms by simp

lemma divide_ulp_times_ulp: "x / ulp y * ulp y = x"
proof -
  have "ulp y \<noteq> 0" using ulp_positive[of y] by linarith
  then show ?thesis by (rule divide_times_cancel)
qed

lemma binary64_dyadic_strict:
  assumes k: "\<bar>k\<bar> < 2 ^ 53" and q: "- 1074 \<le> q"
  shows "binary64 (of_int k * 2 powr of_int q) = of_int k * 2 powr of_int q"
proof (cases "k = 0")
  case True
  then show ?thesis by simp
next
  case False
  let ?v = "of_int k * 2 powr of_int q :: real"
  from False have v0: "?v \<noteq> 0" by simp
  have av: "\<bar>?v\<bar> = of_int \<bar>k\<bar> * 2 powr of_int q" by (simp add: abs_mult)
  from k have "(of_int \<bar>k\<bar> :: real) < 2 ^ 53"
    by (metis of_int_less_numeral_power_cancel_iff)
  then have "\<bar>?v\<bar> < 2 ^ 53 * 2 powr of_int q"
    unfolding av by (simp add: mult_strict_right_mono)
  also have "\<dots> = 2 powr of_int (53 + q)"
    by (simp add: powr_add)
  finally have lt: "\<bar>?v\<bar> < 2 powr of_int (53 + q)" .
  have "expo ?v \<le> 52 + q"
  proof (cases "- 1022 < expo ?v")
    case True
    from expo_lower[OF v0 True] lt have "2 powr of_int (expo ?v) < (2::real) powr of_int (53 + q)"
      by (rule le_less_trans)
    then have "expo ?v < 53 + q" by simp
    then show ?thesis by simp
  next
    case False
    with expo_ge[of ?v] have "expo ?v = - 1022" by simp
    with q show ?thesis by simp
  qed
  then obtain n where n: "q - (expo ?v - 52) = int n"
    by (metis diff_ge_0_iff_ge diff_diff_eq2 add.commute nonneg_int_cases)
  have "?v / ulp ?v = of_int k * (2 powr of_int q / 2 powr of_int (expo ?v - 52))"
    by (simp add: ulp_def)
  also have "2 powr of_int q / 2 powr of_int (expo ?v - 52)
      = (2::real) powr (of_int q - of_int (expo ?v - 52))"
    by (simp add: powr_diff)
  also have "of_int q - of_int (expo ?v - 52) = (of_int (q - (expo ?v - 52)) :: real)" by simp
  also have "\<dots> = of_int (int n)" unfolding n ..
  also have "(2::real) powr of_int (int n) = 2 ^ n" by (simp add: powr_realpow)
  finally have d: "?v / ulp ?v = of_int (k * 2 ^ n)" by simp
  have "rne (?v / ulp ?v) = k * 2 ^ n" unfolding d by (rule rne_of_int)
  then have "binary64 ?v = of_int (k * 2 ^ n) * ulp ?v"
    by (simp only: binary64_def)
  also have "\<dots> = (?v / ulp ?v) * ulp ?v" unfolding d ..
  also have "\<dots> = ?v"
    by (rule divide_ulp_times_ulp)
  finally show ?thesis .
qed

lemma binary64_dyadic:
  assumes k: "\<bar>k\<bar> \<le> 2 ^ 53" and q: "- 1074 \<le> q"
  shows "binary64 (of_int k * 2 powr of_int q) = of_int k * 2 powr of_int q"
proof (cases "\<bar>k\<bar> < 2 ^ 53")
  case True
  then show ?thesis using q by (rule binary64_dyadic_strict)
next
  case False
  with k have "\<bar>k\<bar> = 2 ^ 53" by simp
  then have "k = 2 ^ 53 \<or> k = - (2 ^ 53)" by linarith
  then obtain j :: int where j: "k = 2 * j" "\<bar>j\<bar> < 2 ^ 53"
    by (auto intro: that[of "2 ^ 52"] that[of "- (2 ^ 52)"])
  have "(of_int k :: real) * 2 powr of_int q = of_int j * 2 powr of_int (q + 1)"
    unfolding j by (simp add: powr_add)
  moreover from q have "- 1074 \<le> q + 1" by simp
  ultimately show ?thesis using binary64_dyadic_strict[OF j(2), of "q + 1"] by simp
qed

lemma binary64_of_int: "\<bar>n\<bar> \<le> 2 ^ 53 \<Longrightarrow> binary64 (of_int n) = of_int n"
  using binary64_dyadic[of n 0] by simp

lemma binary64_Ints:
  assumes "x \<in> \<int>" "\<bar>x\<bar> \<le> 2 ^ 53"
  shows "binary64 x = x"
proof -
  from assms(1) obtain n where x: "x = of_int n" by (rule Ints_cases)
  from assms(2) have "(of_int \<bar>n\<bar> :: real) \<le> 2 ^ 53" unfolding x by simp
  then have "\<bar>n\<bar> \<le> 2 ^ 53" by (metis of_int_le_numeral_power_cancel_iff)
  from binary64_of_int[OF this] show ?thesis unfolding x .
qed

lemma rne_minus: "rne (- y) = - rne y"
proof (cases "y \<in> \<int>")
  case True
  then obtain k where "y = of_int k" by (rule Ints_cases)
  then have "- y = of_int (- k)" by simp
  then show ?thesis using \<open>y = of_int k\<close> by (simp only: rne_of_int)
next
  case False
  then have ne: "y \<noteq> of_int \<lfloor>y\<rfloor>" by (metis Ints_of_int)
  have "\<lfloor>- y\<rfloor> = - \<lceil>y\<rceil>" by (simp add: ceiling_def)
  also have "\<lceil>y\<rceil> = \<lfloor>y\<rfloor> + 1" using ne by (simp add: ceiling_altdef)
  finally have f: "\<lfloor>- y\<rfloor> = - \<lfloor>y\<rfloor> - 1" by simp
  show ?thesis
    unfolding rne_def Let_def f by (auto simp: algebra_simps)
qed

lemma expo_minus [simp]: "expo (- x) = expo x"
  by (simp add: expo_def)

lemma ulp_minus [simp]: "ulp (- x) = ulp x"
  by (simp add: ulp_def)

lemma binary64_minus: "binary64 (- x) = - binary64 x"
proof -
  have "(- x) / ulp x = - (x / ulp x)" by simp
  then show ?thesis by (simp add: binary64_def rne_minus)
qed

lemma ulp_times_2_53: "2 ^ 53 * ulp x = 2 powr of_int (expo x + 1)"
proof -
  have "(2::real) ^ 53 = 2 powr of_int 53" by (simp add: powr_real_of_int)
  then have "2 ^ 53 * ulp x = 2 powr of_int 53 * 2 powr of_int (expo x - 52)"
    by (simp only: ulp_def)
  also have "\<dots> = 2 powr (of_int 53 + of_int (expo x - 52))" by (simp only: powr_add)
  also have "of_int 53 + of_int (expo x - 52) = (of_int (expo x + 1) :: real)" by simp
  finally show ?thesis .
qed

lemma ulp_times_2_52: "2 ^ 52 * ulp x = 2 powr of_int (expo x)"
proof -
  have "(2::real) ^ 52 = 2 powr of_int 52" by (simp add: powr_real_of_int)
  then have "2 ^ 52 * ulp x = 2 powr of_int 52 * 2 powr of_int (expo x - 52)"
    by (simp only: ulp_def)
  also have "\<dots> = 2 powr (of_int 52 + of_int (expo x - 52))" by (simp only: powr_add)
  also have "of_int 52 + of_int (expo x - 52) = (of_int (expo x) :: real)" by simp
  finally show ?thesis .
qed

lemma scaled_lt: "x \<noteq> 0 \<Longrightarrow> \<bar>x\<bar> / ulp x < 2 ^ 53"
proof -
  assume "x \<noteq> 0"
  from expo_upper[OF this] have "\<bar>x\<bar> < 2 ^ 53 * ulp x" by (simp only: ulp_times_2_53)
  then show ?thesis using ulp_positive[of x] by (simp add: pos_divide_less_eq)
qed

lemma scaled_ge: "x \<noteq> 0 \<Longrightarrow> - 1022 < expo x \<Longrightarrow> 2 ^ 52 \<le> \<bar>x\<bar> / ulp x"
proof -
  assume "x \<noteq> 0" "- 1022 < expo x"
  from expo_lower[OF this] have "2 ^ 52 * ulp x \<le> \<bar>x\<bar>" by (simp only: ulp_times_2_52)
  then show ?thesis using ulp_positive[of x] by (simp add: pos_le_divide_eq)
qed

lemma rne_numeral [simp]: "rne (numeral k) = numeral k"
  using rne_of_int[of "numeral k"] by simp

lemma rne_neg_numeral [simp]: "rne (- numeral k) = - numeral k"
  using rne_of_int[of "- numeral k"] by simp

lemma ulp_nonneg: "0 \<le> ulp x"
  using ulp_positive[of x] by linarith

lemma abs_ulp [simp]: "\<bar>ulp x\<bar> = ulp x"
  using ulp_nonneg[of x] by simp

lemma binary64_upper_pos:
  assumes "0 < x"
  shows "binary64 x \<le> 2 powr of_int (expo x + 1)"
proof -
  from assms scaled_lt[of x] have "x / ulp x \<le> 2 ^ 53" by simp
  from rne_mono[OF this] have "rne (x / ulp x) \<le> 2 ^ 53" by simp
  then have "real_of_int (rne (x / ulp x)) \<le> 2 ^ 53"
    by (metis of_int_le_numeral_power_cancel_iff)
  then have "binary64 x \<le> 2 ^ 53 * ulp x"
    unfolding binary64_def using ulp_nonneg[of x] by (rule mult_right_mono)
  then show ?thesis by (simp only: ulp_times_2_53)
qed

lemma binary64_lower_pos:
  assumes "0 < x" "- 1022 < expo x"
  shows "2 powr of_int (expo x) \<le> binary64 x"
proof -
  from assms scaled_ge[of x] have "2 ^ 52 \<le> x / ulp x" by simp
  from rne_mono[OF this] have "2 ^ 52 \<le> rne (x / ulp x)" by simp
  then have "2 ^ 52 \<le> real_of_int (rne (x / ulp x))"
    by (metis numeral_power_le_of_int_cancel_iff)
  then have "2 ^ 52 * ulp x \<le> binary64 x"
    unfolding binary64_def using ulp_nonneg[of x] by (rule mult_right_mono)
  then show ?thesis by (simp only: ulp_times_2_52)
qed

lemma binary64_mono_pos:
  assumes "0 < x" "x \<le> y"
  shows "binary64 x \<le> binary64 y"
proof -
  from assms have y: "0 < y" by simp
  from assms have "expo x \<le> expo y" by (intro expo_mono) simp_all
  then consider "expo x = expo y" | "expo x < expo y" by linarith
  then show ?thesis
  proof cases
    case 1
    then have u: "ulp x = ulp y" by (simp add: ulp_def)
    from assms(2) ulp_nonneg[of y] have "x / ulp y \<le> y / ulp y"
      by (rule divide_right_mono)
    from rne_mono[OF this] have "real_of_int (rne (x / ulp y)) \<le> real_of_int (rne (y / ulp y))"
      by simp
    then show ?thesis
      unfolding binary64_def u using ulp_nonneg[of y] by (rule mult_right_mono)
  next
    case 2
    then have "(2::real) powr of_int (expo x + 1) \<le> 2 powr of_int (expo y)" by simp
    moreover from 2 expo_ge[of x] have "- 1022 < expo y" by simp
    ultimately show ?thesis
      using binary64_upper_pos[OF assms(1)] binary64_lower_pos[OF y] by linarith
  qed
qed

lemma binary64_mono:
  assumes "x \<le> y"
  shows "binary64 x \<le> binary64 y"
proof -
  consider "0 < x" | "x \<le> 0" "0 \<le> y" | "y < 0" by linarith
  then show ?thesis
  proof cases
    case 1
    then show ?thesis using assms by (rule binary64_mono_pos)
  next
    case 2
    with binary64_nonpos[of x] binary64_nonneg[of y] show ?thesis by linarith
  next
    case 3
    with assms have "0 < - y" "- y \<le> - x" by simp_all
    from binary64_mono_pos[OF this] show ?thesis by (simp add: binary64_minus)
  qed
qed

lemma binary64_idem: "binary64 (binary64 x) = binary64 x"
proof (cases "x = 0")
  case True
  then show ?thesis by simp
next
  case False
  let ?m = "rne (x / ulp x)"
  from scaled_lt[OF False] have "\<bar>x / ulp x\<bar> < 2 ^ 53"
    by (simp only: abs_divide abs_ulp)
  then have "- (2 ^ 53) \<le> x / ulp x" "x / ulp x \<le> 2 ^ 53" by linarith+
  from rne_mono[OF this(1)] rne_mono[OF this(2)]
  have "- (2 ^ 53) \<le> ?m" "?m \<le> 2 ^ 53"
    using rne_minus[of "2 ^ 53"] by simp_all
  then have m: "\<bar>?m\<bar> \<le> 2 ^ 53" by linarith
  have q: "- 1074 \<le> expo x - 52" using expo_ge[of x] by simp
  from binary64_dyadic[OF m q] show ?thesis
    by (simp only: binary64_def ulp_def)
qed

lemma binary64_scaled:
  assumes lo: "2 ^ 52 \<le> \<bar>x\<bar> * 2 ^ n" and hi: "\<bar>x\<bar> * 2 ^ n < 2 ^ 53" and n: "n \<le> 1074"
  shows "binary64 x = of_int (rne (x * 2 ^ n)) / 2 ^ n"
proof -
  let ?e = "52 - int n"
  have p: "(2::real) powr of_int ?e = 2 ^ 52 / 2 ^ n"
  proof -
    have "(2::real) powr of_int ?e = 2 powr (of_int 52 - of_int (int n))" by simp
    also have "\<dots> = 2 powr of_int 52 / 2 powr of_int (int n)" by (simp only: powr_diff)
    also have "\<dots> = 2 ^ 52 / 2 ^ n" by (simp add: powr_realpow)
    finally show ?thesis .
  qed
  have p1: "(2::real) powr of_int (?e + 1) = 2 ^ 53 / 2 ^ n"
  proof -
    have "(2::real) powr of_int (?e + 1) = 2 powr (of_int 53 - of_int (int n))" by simp
    also have "\<dots> = 2 powr of_int 53 / 2 powr of_int (int n)" by (simp only: powr_diff)
    also have "\<dots> = 2 ^ 53 / 2 ^ n" by (simp add: powr_realpow)
    finally show ?thesis .
  qed
  have "2 powr of_int ?e \<le> \<bar>x\<bar>" unfolding p using lo by (simp add: pos_divide_le_eq)
  moreover have "\<bar>x\<bar> < 2 powr of_int (?e + 1)" unfolding p1 using hi by (simp add: pos_less_divide_eq)
  moreover have "- 1022 \<le> ?e" using n by simp
  ultimately have e: "expo x = ?e" by (rule expo_eqI)
  have "ulp x = 2 powr (of_int 0 - of_int (int n))" by (simp add: ulp_def e)
  also have "\<dots> = 2 powr of_int 0 / 2 powr of_int (int n)" by (simp only: powr_diff)
  also have "\<dots> = 1 / 2 ^ n" by (simp add: powr_realpow)
  finally have u: "ulp x = 1 / 2 ^ n" .
  show ?thesis by (simp add: binary64_def u)
qed

lemma rne_small:
  assumes "\<bar>y\<bar> < 1 / 2"
  shows "rne y = 0"
proof (cases "0 \<le> y")
  case True
  with assms have "\<lfloor>y\<rfloor> = 0" by (intro floor_unique) simp_all
  with assms True show ?thesis by (simp add: rne_def)
next
  case False
  with assms have "\<lfloor>y\<rfloor> = - 1" by (intro floor_unique) simp_all
  with assms False show ?thesis by (simp add: rne_def)
qed

lemma binary64_tiny:
  assumes "\<bar>x\<bar> < 2 powr of_int (- 1075)"
  shows "binary64 x = 0"
proof (cases "x = 0")
  case True
  then show ?thesis by simp
next
  case False
  have "\<not> - 1022 < expo x"
  proof
    assume a: "- 1022 < expo x"
    from expo_lower[OF False a] assms
    have "(2::real) powr of_int (expo x) < 2 powr of_int (- 1075)" by (rule le_less_trans)
    then have "expo x < - 1075" by (simp only: powr_less_cancel_iff one_less_numeral_iff
        semiring_norm of_int_less_iff)
    with a show False by simp
  qed
  with expo_ge[of x] have e: "expo x = - 1022" by simp
  have u: "ulp x = 2 powr of_int (- 1074)" by (simp add: ulp_def e)
  have "\<bar>x / ulp x\<bar> = \<bar>x\<bar> / ulp x" by (simp only: abs_divide abs_ulp)
  also have "\<dots> < 2 powr of_int (- 1075) / ulp x"
    using assms ulp_positive[of x] by (rule divide_strict_right_mono)
  also have "\<dots> = 2 powr (of_int (- 1075) - of_int (- 1074))"
    unfolding u by (simp only: powr_diff)
  also have "of_int (- 1075) - of_int (- 1074) = (- 1 :: real)" by simp
  also have "(2::real) powr (- 1) = 1 / 2" by (simp add: powr_neg_one)
  finally have s: "\<bar>x / ulp x\<bar> < 1 / 2" .
  from s have "rne (x / ulp x) = 0" by (rule rne_small)
  then show ?thesis by (simp add: binary64_def)
qed

lemma binary64_frac:
  assumes "\<bar>k\<bar> \<le> 2 ^ 53" "n \<le> 1074"
  shows "binary64 (of_int k / 2 ^ n) = of_int k / 2 ^ n"
proof -
  have "(2::real) powr of_int (- int n) = 1 / 2 ^ n"
    by (simp add: powr_minus powr_realpow divide_inverse)
  then have e: "(of_int k / 2 ^ n :: real) = of_int k * 2 powr of_int (- int n)" by simp
  from assms(2) have "- 1074 \<le> - int n" by simp
  from binary64_dyadic[OF assms(1) this] show ?thesis unfolding e .
qed

lemma binary64_numeral [simp]:
  "numeral n \<le> (2 ^ 53 :: real) \<Longrightarrow> binary64 (numeral n) = numeral n"
  by (rule binary64_Ints) simp_all

lemma binary64_1 [simp]: "binary64 1 = 1"
  by (rule binary64_Ints) simp_all

lemma binary64_pos_imp: "0 < binary64 x \<Longrightarrow> 0 < x"
  using binary64_nonpos[of x] by (cases "0 < x") simp_all

lemma nadd_Ints: "a \<in> \<int> \<Longrightarrow> b \<in> \<int> \<Longrightarrow> \<bar>a + b\<bar> \<le> 2 ^ 53 \<Longrightarrow> nadd a b = a + b"
  unfolding nadd_def by (rule binary64_Ints) simp_all

lemma nsub_Ints: "a \<in> \<int> \<Longrightarrow> b \<in> \<int> \<Longrightarrow> \<bar>a - b\<bar> \<le> 2 ^ 53 \<Longrightarrow> nsub a b = a - b"
  unfolding nsub_def by (rule binary64_Ints) simp_all

lemma nmul_Ints: "a \<in> \<int> \<Longrightarrow> b \<in> \<int> \<Longrightarrow> \<bar>a * b\<bar> \<le> 2 ^ 53 \<Longrightarrow> nmul a b = a * b"
  unfolding nmul_def by (rule binary64_Ints) simp_all

lemma ndiv_Ints: "a / b \<in> \<int> \<Longrightarrow> \<bar>a / b\<bar> \<le> 2 ^ 53 \<Longrightarrow> ndiv a b = a / b"
  unfolding ndiv_def by (rule binary64_Ints)

lemma nsub_pos_imp: "0 < nsub a b \<Longrightarrow> b < a"
  unfolding nsub_def using binary64_pos_imp[of "a - b"] by simp

lemma ndiv_nonneg: "0 \<le> a \<Longrightarrow> 0 < b \<Longrightarrow> 0 \<le> ndiv a b"
  unfolding ndiv_def by (rule binary64_nonneg) simp

lemma accrued_nonpos:
  assumes "now \<le> lst" "0 \<le> rate"
  shows "ndiv (nmul (nsub now lst) rate) 1000 \<le> 0"
proof -
  from assms(1) have "nsub now lst \<le> 0" unfolding nsub_def by (intro binary64_nonpos) simp
  from this assms(2) have "nsub now lst * rate \<le> 0" by (rule mult_nonpos_nonneg)
  then have "nmul (nsub now lst) rate \<le> 0" unfolding nmul_def by (rule binary64_nonpos)
  then have "nmul (nsub now lst) rate / 1000 \<le> 0" by simp
  then show ?thesis unfolding ndiv_def by (rule binary64_nonpos)
qed

lemma rne_eval:
  assumes "of_int k - 1 / 2 < y" "y < of_int k + 1 / 2"
  shows "rne y = k"
proof (cases "of_int k \<le> y")
  case True
  with assms have "\<lfloor>y\<rfloor> = k" by (intro floor_unique) simp_all
  with assms show ?thesis by (simp add: rne_def)
next
  case False
  with assms have "\<lfloor>y\<rfloor> = k - 1" by (intro floor_unique) simp_all
  with assms False show ?thesis by (simp add: rne_def)
qed

lemma rne_half_even:
  assumes "y = of_int k + 1 / 2" "odd k"
  shows "rne y = k + 1"
proof -
  from assms have "\<lfloor>y\<rfloor> = k" by (intro floor_unique) simp_all
  with assms show ?thesis by (simp add: rne_def)
qed

lemma dime_rate_round: "ndiv 1 10 = dime_rate"
proof -
  have "rne (1 / 10 * 2 ^ 56) = 7205759403792794" by (rule rne_eval) simp_all
  moreover have "binary64 (1 / 10) = of_int (rne (1 / 10 * 2 ^ 56)) / 2 ^ 56"
    by (rule binary64_scaled) simp_all
  ultimately show ?thesis by (simp only: ndiv_def dime_rate_def of_int_numeral)
qed

lemma dime_mul: "nmul 1000 dime_rate = 100"
proof -
  have "rne (1000 * dime_rate * 2 ^ 46) = 7036874417766400"
    unfolding dime_rate_def by (rule rne_eval) simp_all
  moreover have "binary64 (1000 * dime_rate) = of_int (rne (1000 * dime_rate * 2 ^ 46)) / 2 ^ 46"
    unfolding dime_rate_def by (rule binary64_scaled) simp_all
  ultimately show ?thesis by (simp add: nmul_def)
qed

lemma dime_div: "ndiv 100 1000 = dime_rate"
  using dime_rate_round by (simp add: ndiv_def)

lemma dime_add1: "nadd 0 dime_rate = dime_rate"
  unfolding nadd_def dime_rate_def add_0 
  using binary64_frac[of 7205759403792794 56] by simp

lemma dime_add2: "nadd dime_rate dime_rate = 2 * dime_rate"
proof -
  have a: "dime_rate + dime_rate = of_int 7205759403792794 / 2 ^ 55"
    by (simp add: dime_rate_def)
  have b: "binary64 (of_int 7205759403792794 / 2 ^ 55) = of_int 7205759403792794 / 2 ^ 55"
    by (rule binary64_frac) simp_all
  show ?thesis unfolding nadd_def a b by (simp add: dime_rate_def)
qed

lemma dime_add3: "nadd (2 * dime_rate) dime_rate = dime_paid"
proof -
  have "rne ((2 * dime_rate + dime_rate) * 2 ^ 54) = 5404319552844595 + 1"
    unfolding dime_rate_def by (rule rne_half_even) simp_all
  moreover have "binary64 (2 * dime_rate + dime_rate)
      = of_int (rne ((2 * dime_rate + dime_rate) * 2 ^ 54)) / 2 ^ 54"
    unfolding dime_rate_def by (rule binary64_scaled) simp_all
  ultimately show ?thesis by (simp add: nadd_def dime_paid_def)
qed

lemma dime_sub: "nsub 1 dime_paid = dime_refund"
proof -
  have a: "1 - dime_paid = of_int 6305039478318694 / 2 ^ 53" by (simp add: dime_paid_def)
  have b: "binary64 (of_int 6305039478318694 / 2 ^ 53) = of_int 6305039478318694 / 2 ^ 53"
    by (rule binary64_frac) simp_all
  show ?thesis unfolding nsub_def a b by (simp add: dime_refund_def)
qed

lemma dime_order:
  "0 < dime_rate" "dime_rate \<le> 1" "2 * dime_rate \<le> 1" "dime_paid \<le> 1" "0 < dime_refund"
  by (simp_all add: dime_rate_def dime_paid_def dime_refund_def)

lemma dime_sum: "dime_rate + dime_rate + dime_rate + dime_refund = 1 - 1 / 2 ^ 55"
  by (simp add: dime_rate_def dime_refund_def)

subsection \<open>Rates that round to zero\<close>

lemma smallest_double: "binary64 (2 powr (- 1074)) = 2 powr (- 1074)"
  using binary64_dyadic[of 1 "- 1074"] by simp

lemma rate_positive:
  assumes "2 powr (- 1074) \<le> a / b"
  shows "0 < ndiv a b"
proof -
  from assms have "binary64 (2 powr (- 1074)) \<le> binary64 (a / b)" by (rule binary64_mono)
  then have "2 powr (- 1074) \<le> ndiv a b" by (simp only: smallest_double ndiv_def)
  moreover have "(0::real) < 2 powr (- 1074)" by simp
  ultimately show ?thesis by (rule less_le_trans[rotated])
qed

lemma rate_underflow:
  assumes "0 \<le> a / b" "a / b < 2 powr (- 1075)"
  shows "ndiv a b = 0"
proof -
  from assms have "\<bar>a / b\<bar> < 2 powr of_int (- 1075)" by simp
  then show ?thesis unfolding ndiv_def by (rule binary64_tiny)
qed

lemma quarter_of_smallest: "(2::real) powr (- 1074) / 4 = 2 powr (- 1076)"
proof -
  have "(2::real) powr (- 1074) / 2 powr 2 = 2 powr (- 1074 - 2)" by (simp only: powr_diff)
  then show ?thesis by simp
qed

lemma smallest_below_half: "(2::real) powr (- 1074) \<le> 1 / 2"
proof -
  have "(2::real) powr (- 1074) \<le> 2 powr (- 1)" by (intro powr_mono) simp_all
  then show ?thesis by (simp add: powr_neg_one)
qed


subsection \<open>Invocations that address another stream, with 64-bit integers\<close>







subsection \<open>One invocation under a clock that does not go back\<close>

lemma grows_refl: "grows s s"
  by (simp add: grows_def same_terms_def)

lemma grows_trans: "grows s s' \<Longrightarrow> grows s' s'' \<Longrightarrow> grows s s''"
  by (auto simp: grows_def same_terms_def)

lemma sound_later: "sound t s \<Longrightarrow> t \<le> t' \<Longrightarrow> sound t' s"
  by (auto simp: sound_def)

lemma nadd_grows:
  assumes "binary64 w = w" "0 < p"
  shows "w \<le> nadd w p"
proof -
  from assms(2) have "w \<le> w + p" by simp
  then have "binary64 w \<le> binary64 (w + p)" by (rule binary64_mono)
  with assms(1) show ?thesis by (simp add: nadd_def)
qed

lemma nadd_double: "binary64 (nadd a b) = nadd a b"
  by (simp add: nadd_def binary64_idem)

lemma unchanged_sound:
  assumes "streams L i = Some s" "sound t s" "L' = L"
  shows "\<exists>s'. streams L' = (streams L)(i \<mapsto> s')
           \<and> stream_counter L' = stream_counter L \<and> sound t s' \<and> grows s s'"
  using assms by (intro exI[of _ s]) (simp add: map_upd_triv grows_refl)

lemma process_num_sound:
  assumes st: "streams L i = Some s" and so: "sound t s" and clk: "t \<le> timestamp ctx"
  shows "\<exists>s'. streams (snd (processStreamPayment_num ctx i L)) = (streams L)(i \<mapsto> s')
           \<and> stream_counter (snd (processStreamPayment_num ctx i L)) = stream_counter L
           \<and> sound (timestamp ctx) s' \<and> grows s s'"
proof -
  from so clk have so': "sound (timestamp ctx) s" by (rule sound_later)
  from st have triv: "(streams L)(i \<mapsto> s) = streams L" by (rule map_upd_triv)
  let ?p = "ndiv (nmul (nsub (timestamp ctx) (lastPaymentTime s)) (ratePerSecond s)) 1000"
  consider (idle) "isCancelled s \<or> isPaused s"
    | (final) "\<not> isCancelled s" "\<not> isPaused s" "endTime s \<le> timestamp ctx"
    | (pays) "\<not> isCancelled s" "\<not> isPaused s" "\<not> endTime s \<le> timestamp ctx"
        "0 < ?p" "nadd (withdrawnAmount s) ?p \<le> totalAmount s"
    | (skips) "\<not> isCancelled s" "\<not> isPaused s" "\<not> endTime s \<le> timestamp ctx"
        "\<not> (0 < ?p \<and> nadd (withdrawnAmount s) ?p \<le> totalAmount s)"
    by blast
  then show ?thesis
  proof cases
    case idle
    with st have "snd (processStreamPayment_num ctx i L) = L"
      by (auto simp: processStreamPayment_num_def)
    from unchanged_sound[OF st so' this] show ?thesis .
  next
    case final
    let ?s' = "(if 0 < nsub (totalAmount s) (withdrawnAmount s)
                then s\<lparr>withdrawnAmount := totalAmount s\<rparr> else s)\<lparr>isCancelled := True\<rparr>"
    from st final have "streams (snd (processStreamPayment_num ctx i L)) = (streams L)(i \<mapsto> ?s')"
      "stream_counter (snd (processStreamPayment_num ctx i L)) = stream_counter L"
      by (simp_all add: processStreamPayment_num_def Let_def storeStream_def transferCoins_def)
    moreover from so' have "sound (timestamp ctx) ?s'" by (simp add: sound_def)
    moreover from so final(1) have "grows s ?s'"
      by (simp add: grows_def same_terms_def sound_def)
    ultimately show ?thesis by blast
  next
    case pays
    let ?s' = "s\<lparr>withdrawnAmount := nadd (withdrawnAmount s) ?p,
                  lastPaymentTime := timestamp ctx\<rparr>"
    from st pays have "streams (snd (processStreamPayment_num ctx i L)) = (streams L)(i \<mapsto> ?s')"
      "stream_counter (snd (processStreamPayment_num ctx i L)) = stream_counter L"
      by (simp_all add: processStreamPayment_num_def Let_def storeStream_def transferCoins_def
            scheduleNextPayment_num_def)
    moreover from pays(5) have "sound (timestamp ctx) ?s'"
      by (simp add: sound_def nadd_double)
    moreover from so pays(1) have "binary64 (withdrawnAmount s) = withdrawnAmount s"
      by (simp add: sound_def)
    from nadd_grows[OF this pays(4)] so' pays(1) have "grows s ?s'"
      by (simp add: grows_def same_terms_def sound_def)
    ultimately show ?thesis by blast
  next
    case skips
    with st have "streams (snd (processStreamPayment_num ctx i L)) = streams L"
      "stream_counter (snd (processStreamPayment_num ctx i L)) = stream_counter L"
      by (auto simp: processStreamPayment_num_def Let_def scheduleNextPayment_num_def)
    with so' st grows_refl[of s] show ?thesis
      by (intro exI[of _ s]) (simp add: map_upd_triv)
  qed
qed

lemma cancel_num_sound:
  assumes st: "streams L i = Some s" and so: "sound t s" and clk: "t \<le> timestamp ctx"
  shows "\<exists>s'. streams (snd (cancelStream_num ctx i L)) = (streams L)(i \<mapsto> s')
           \<and> stream_counter (snd (cancelStream_num ctx i L)) = stream_counter L
           \<and> sound (timestamp ctx) s' \<and> grows s s'"
proof -
  from so clk have so': "sound (timestamp ctx) s" by (rule sound_later)
  from st have triv: "(streams L)(i \<mapsto> s) = streams L" by (rule map_upd_triv)
  show ?thesis
  proof (cases "sender s \<noteq> caller ctx \<or> isCancelled s")
    case True
    with st have "snd (cancelStream_num ctx i L) = L"
      by (auto simp: cancelStream_num_def)
    from unchanged_sound[OF st so' this] show ?thesis .
  next
    case False
    let ?s' = "s\<lparr>isCancelled := True\<rparr>"
    from st False have "streams (snd (cancelStream_num ctx i L)) = (streams L)(i \<mapsto> ?s')"
      "stream_counter (snd (cancelStream_num ctx i L)) = stream_counter L"
      by (simp_all add: cancelStream_num_def Let_def storeStream_def transferCoins_def)
    moreover from so' have "sound (timestamp ctx) ?s'" by (simp add: sound_def)
    moreover from False have "grows s ?s'" by (simp add: grows_def same_terms_def)
    ultimately show ?thesis by blast
  qed
qed

lemma pause_num_sound:
  assumes st: "streams L i = Some s" and so: "sound t s" and clk: "t \<le> timestamp ctx"
  shows "\<exists>s'. streams (snd (pauseStream_num ctx i L)) = (streams L)(i \<mapsto> s')
           \<and> stream_counter (snd (pauseStream_num ctx i L)) = stream_counter L
           \<and> sound (timestamp ctx) s' \<and> grows s s'"
proof -
  from so clk have so': "sound (timestamp ctx) s" by (rule sound_later)
  from st have triv: "(streams L)(i \<mapsto> s) = streams L" by (rule map_upd_triv)
  show ?thesis
  proof (cases "sender s \<noteq> caller ctx \<or> isCancelled s \<or> isPaused s")
    case True
    with st have "snd (pauseStream_num ctx i L) = L"
      by (auto simp: pauseStream_num_def)
    from unchanged_sound[OF st so' this] show ?thesis .
  next
    case False
    let ?s' = "s\<lparr>isPaused := True\<rparr>"
    from st False have "streams (snd (pauseStream_num ctx i L)) = (streams L)(i \<mapsto> ?s')"
      "stream_counter (snd (pauseStream_num ctx i L)) = stream_counter L"
      by (simp_all add: pauseStream_num_def Let_def storeStream_def)
    moreover from so' have "sound (timestamp ctx) ?s'" by (simp add: sound_def)
    moreover from False have "grows s ?s'" by (simp add: grows_def same_terms_def)
    ultimately show ?thesis by blast
  qed
qed

lemma resume_num_sound:
  assumes st: "streams L i = Some s" and so: "sound t s" and clk: "t \<le> timestamp ctx"
  shows "\<exists>s'. streams (snd (resumeStream_num ctx i L)) = (streams L)(i \<mapsto> s')
           \<and> stream_counter (snd (resumeStream_num ctx i L)) = stream_counter L
           \<and> sound (timestamp ctx) s' \<and> grows s s'"
proof -
  from so clk have so': "sound (timestamp ctx) s" by (rule sound_later)
  from st have triv: "(streams L)(i \<mapsto> s) = streams L" by (rule map_upd_triv)
  show ?thesis
  proof (cases "sender s \<noteq> caller ctx \<or> isCancelled s \<or> \<not> isPaused s")
    case True
    with st have "snd (resumeStream_num ctx i L) = L"
      by (auto simp: resumeStream_num_def)
    from unchanged_sound[OF st so' this] show ?thesis .
  next
    case False
    let ?s' = "s\<lparr>isPaused := False, lastPaymentTime := timestamp ctx\<rparr>"
    from st False have "streams (snd (resumeStream_num ctx i L)) = (streams L)(i \<mapsto> ?s')"
      "stream_counter (snd (resumeStream_num ctx i L)) = stream_counter L"
      by (simp_all add: resumeStream_num_def Let_def storeStream_def
            scheduleNextPayment_num_def)
    moreover from so' have "sound (timestamp ctx) ?s'" by (simp add: sound_def)
    moreover from False so' have "grows s ?s'"
      by (simp add: grows_def same_terms_def sound_def)
    ultimately show ?thesis by blast
  qed
qed

lemma exec_num_sound:
  assumes "streams L i = Some s" "sound t s" "t \<le> timestamp ctx" "target c = Some i"
  shows "\<exists>s'. streams (exec_num (ctx, c) L) = (streams L)(i \<mapsto> s')
           \<and> stream_counter (exec_num (ctx, c) L) = stream_counter L
           \<and> sound (timestamp ctx) s' \<and> grows s s'"
  using assms
  by (cases c)
     (simp_all add: process_num_sound cancel_num_sound pause_num_sound resume_num_sound)

subsection \<open>Invocations that address another stream, with numbers\<close>

lemma exec_num_other_stream:
  assumes "target c = Some j" "j \<noteq> i"
  shows "streams (exec_num (ctx, c) L) i = streams L i
         \<and> stream_counter (exec_num (ctx, c) L) = stream_counter L"
  using assms
  by (cases c)
     (auto simp: processStreamPayment_num_def cancelStream_num_def pauseStream_num_def
        resumeStream_num_def Let_def storeStream_def transferCoins_def
        scheduleNextPayment_num_def split: option.splits)

lemma exec_num_create_other:
  assumes "stream_counter L = Some k" "nadd k 1 \<noteq> i"
  shows "streams (exec_num (ctx, Create r d ty iv) L) i = streams L i
         \<and> (stream_counter (exec_num (ctx, Create r d ty iv) L) = Some k
            \<or> stream_counter (exec_num (ctx, Create r d ty iv) L) = Some (nadd k 1))"
  using assms
  by (auto simp: createStream_num_def Let_def storeStream_def scheduleNextPayment_num_def)

lemma exec_num_elsewhere:
  assumes tg: "target c \<noteq> Some i" and iss: "id_issued_num i (Suc n) L"
  shows "streams (exec_num (ctx, c) L) i = streams L i
         \<and> id_issued_num i n (exec_num (ctx, c) L)"
proof -
  from iss obtain k where k: "stream_counter L = Some k" "k \<in> \<nat>" "i \<le> k"
    "k + of_nat (Suc n) \<le> 2 ^ 53"
    by (auto simp: id_issued_num_def)
  from k(4) have kn: "k + 1 + of_nat n \<le> 2 ^ 53" by simp
  from k(2) have k0: "0 \<le> k" and kz: "k \<in> \<int>" and k1n: "k + 1 \<in> \<nat>"
    by (auto elim!: Nats_cases intro: Nats_add)
  from kn k0 have "\<bar>k + 1\<bar> \<le> 2 ^ 53" by simp
  with kz have n1: "nadd k 1 = k + 1" by (intro nadd_Ints) simp_all
  have keep: "id_issued_num i n (exec_num (ctx, c) L)"
    if "stream_counter (exec_num (ctx, c) L) = Some k"
    using that k kn by (auto simp: id_issued_num_def)
  show ?thesis
  proof (cases "target c")
    case None
    then obtain r d ty iv where c: "c = Create r d ty iv" by (cases c) simp_all
    from k(3) have "nadd k 1 \<noteq> i" unfolding n1 by simp
    from exec_num_create_other[OF k(1) this, of ctx r d ty iv]
    have a: "streams (exec_num (ctx, c) L) i = streams L i"
      and b: "stream_counter (exec_num (ctx, c) L) = Some k
          \<or> stream_counter (exec_num (ctx, c) L) = Some (k + 1)"
      unfolding c n1 by simp_all
    from b have "id_issued_num i n (exec_num (ctx, c) L)"
    proof
      assume "stream_counter (exec_num (ctx, c) L) = Some k"
      then show ?thesis by (rule keep)
    next
      assume "stream_counter (exec_num (ctx, c) L) = Some (k + 1)"
      with k1n k(3) kn show ?thesis by (auto simp: id_issued_num_def)
    qed
    with a show ?thesis by simp
  next
    case (Some j)
    with tg have "j \<noteq> i" by simp
    from exec_num_other_stream[OF Some this, of ctx L] k(1) keep
    show ?thesis by simp
  qed
qed

subsection \<open>Runs under a clock that does not go back\<close>

lemma id_issued_num_less: "id_issued_num i (Suc n) L \<Longrightarrow> id_issued_num i n L"
  by (auto simp: id_issued_num_def)

lemma exec_num_tracked:
  assumes st: "streams L i = Some s" and so: "sound t s"
    and iss: "id_issued_num i (Suc n) L" and clk: "t \<le> timestamp ctx"
  shows "\<exists>s'. streams (exec_num (ctx, c) L) i = Some s' \<and> sound (timestamp ctx) s'
           \<and> id_issued_num i n (exec_num (ctx, c) L) \<and> grows s s'"
proof (cases "target c = Some i")
  case True
  from exec_num_sound[OF st so clk True]
  obtain s' where s': "streams (exec_num (ctx, c) L) = (streams L)(i \<mapsto> s')"
    "stream_counter (exec_num (ctx, c) L) = stream_counter L"
    "sound (timestamp ctx) s'" "grows s s'" by blast
  from s'(2) iss have "id_issued_num i n (exec_num (ctx, c) L)"
    by (auto simp: id_issued_num_def)
  with s' show ?thesis by simp
next
  case False
  from exec_num_elsewhere[OF False iss, of ctx] st sound_later[OF so clk] grows_refl[of s]
  show ?thesis by simp
qed

lemma run_num_tracked:
  assumes "streams L i = Some s" "sound t s" "id_issued_num i (length cs) L"
    and "clock_monotonic t cs"
  shows "\<exists>s' t'. streams (run_num cs L) i = Some s' \<and> sound t' s' \<and> grows s s'"
  using assms
proof (induction cs arbitrary: L s t)
  case Nil
  then show ?case using grows_refl by auto
next
  case (Cons c cs)
  obtain ctx cmd where c: "c = (ctx, cmd)" by (cases c)
  from Cons.prems c have tl: "t \<le> timestamp ctx"
    and mono: "clock_monotonic (timestamp ctx) cs" by simp_all
  from Cons.prems(3) have "id_issued_num i (Suc (length cs)) L" by simp
  from exec_num_tracked[OF Cons.prems(1,2) this tl, of cmd]
  obtain s1 where s1: "streams (exec_num c L) i = Some s1" "sound (timestamp ctx) s1"
    "id_issued_num i (length cs) (exec_num c L)" "grows s s1" unfolding c by blast
  from Cons.IH[OF s1(1,2,3) mono]
  obtain s2 t2 where "streams (run_num cs (exec_num c L)) i = Some s2" "sound t2 s2"
    "grows s1 s2" by blast
  with grows_trans[OF s1(4)] show ?case by auto
qed

lemma run_num_tracked_split:
  assumes "streams L i = Some s" "sound t s" "id_issued_num i (length (pre @ post)) L"
    and "clock_monotonic t (pre @ post)"
  shows "\<exists>s1 s2. streams (run_num pre L) i = Some s1
           \<and> streams (run_num (pre @ post) L) i = Some s2 \<and> grows s1 s2"
  using assms
proof (induction pre arbitrary: L s t)
  case Nil
  then have "id_issued_num i (length post) L" "clock_monotonic t post" by simp_all
  from run_num_tracked[OF Nil.prems(1,2) this] Nil.prems(1)
  show ?case by auto
next
  case (Cons c pre)
  obtain ctx cmd where c: "c = (ctx, cmd)" by (cases c)
  from Cons.prems c have tl: "t \<le> timestamp ctx"
    and mono: "clock_monotonic (timestamp ctx) (pre @ post)" by simp_all
  from Cons.prems(3) have "id_issued_num i (Suc (length (pre @ post))) L" by simp
  from exec_num_tracked[OF Cons.prems(1,2) this tl, of cmd]
  obtain s0 where s0: "streams (exec_num c L) i = Some s0" "sound (timestamp ctx) s0"
    "id_issued_num i (length (pre @ post)) (exec_num c L)" unfolding c by blast
  from Cons.IH[OF s0 mono] show ?case by simp
qed

subsection \<open>Creation\<close>

lemma createStream_num_stores:
  assumes "createStream_num ctx rcpt d ty iv L = (Inr i, L')"
  shows "streams L' i =
           Some \<lparr>sender = caller ctx, recipient = rcpt, startTime = timestamp ctx,
                 endTime = nadd (timestamp ctx) (nmul d 1000),
                 ratePerSecond = ndiv (transferredCoins ctx) d,
                 lastPaymentTime = timestamp ctx, totalAmount = transferredCoins ctx,
                 withdrawnAmount = 0, isPaused = False, isCancelled = False,
                 streamType = ty, intervalSeconds = iv\<rparr>
         \<and> stream_counter L' = Some i \<and> transfers L' = transfers L
         \<and> 0 < transferredCoins ctx \<and> 0 < d \<and> 0 < iv \<and> 0 < ndiv (transferredCoins ctx) d"
  using assms
  by (auto simp: createStream_num_def Let_def storeStream_def scheduleNextPayment_num_def
        split: if_splits)

lemma createStream_num_sound:
  assumes "createStream_num ctx rcpt d ty iv L = (Inr i, L')"
  shows "\<exists>s. streams L' i = Some s \<and> sound (timestamp ctx) s \<and> stream_counter L' = Some i"
  using createStream_num_stores[OF assms] by (simp add: sound_def)

lemma run_num_monotone:
  assumes cr: "createStream_num ctx0 rcpt d ty iv L0 = (Inr i, L1)"
    and mono: "clock_monotonic (timestamp ctx0) (pre @ post)"
    and room: "i \<in> \<nat>" "i + of_nat (length (pre @ post)) \<le> 2 ^ 53"
  shows "\<exists>s s'. streams (run_num pre L1) i = Some s
           \<and> streams (run_num (pre @ post) L1) i = Some s'
           \<and> withdrawnAmount s \<le> withdrawnAmount s'
           \<and> lastPaymentTime s \<le> lastPaymentTime s'"
proof -
  from createStream_num_sound[OF cr]
  obtain s0 where s0: "streams L1 i = Some s0" "sound (timestamp ctx0) s0"
    "stream_counter L1 = Some i" by blast
  from s0(3) room have "id_issued_num i (length (pre @ post)) L1"
    by (simp add: id_issued_num_def)
  from run_num_tracked_split[OF s0(1,2) this mono]
  show ?thesis by (auto simp: grows_def)
qed

subsection \<open>Whole-number runs\<close>

lemma whole_accrual:
  assumes wh: "whole_stream s" and on: "on_second (startTime s) now"
    and be: "now < endTime s" and af: "lastPaymentTime s < now"
  shows "ndiv (nmul (nsub now (lastPaymentTime s)) (ratePerSecond s)) 1000
           = (now - lastPaymentTime s) * ratePerSecond s / 1000"
    and "(now - lastPaymentTime s) * ratePerSecond s / 1000 \<in> \<int>"
    and "0 < (now - lastPaymentTime s) * ratePerSecond s / 1000"
    and "(now - lastPaymentTime s) * ratePerSecond s / 1000 \<le> totalAmount s"
proof -
  let ?l = "lastPaymentTime s" and ?r = "ratePerSecond s" and ?t0 = "startTime s"
  from wh have r: "?r \<in> \<int>" "0 < ?r" and l: "?l \<in> \<int>" "?t0 \<le> ?l" "?l \<le> 2 ^ 53"
    "(?l - ?t0) / 1000 \<in> \<int>" and t0: "0 \<le> ?t0"
    and cap: "?r * (endTime s - ?t0) \<le> 1000 * totalAmount s"
    and tot: "1000 * totalAmount s \<le> 2 ^ 53"
    by (simp_all add: whole_stream_def on_second_def)
  from on have n: "now \<in> \<int>" "?t0 \<le> now" "now \<le> 2 ^ 53" "(now - ?t0) / 1000 \<in> \<int>"
    by (simp_all add: on_second_def)
  from af l(2) t0 n(3) have "\<bar>now - ?l\<bar> \<le> 2 ^ 53" by simp
  with n(1) l(1) have e: "nsub now ?l = now - ?l" by (intro nsub_Ints)
  from af have epos: "0 < now - ?l" by simp
  from be l(2) have "now - ?l \<le> endTime s - ?t0" by simp
  with r(2) have "?r * (now - ?l) \<le> ?r * (endTime s - ?t0)" by simp
  with cap have le: "(now - ?l) * ?r \<le> 1000 * totalAmount s" by (simp add: mult.commute)
  from epos r(2) have ppos: "0 < (now - ?l) * ?r" by simp
  from le tot ppos have "\<bar>(now - ?l) * ?r\<bar> \<le> 2 ^ 53" by simp
  moreover from n(1) l(1) have "now - ?l \<in> \<int>" by simp
  ultimately have m: "nmul (now - ?l) ?r = (now - ?l) * ?r" using r(1) by (intro nmul_Ints)
  have "(now - ?l) * ?r / 1000 = ((now - ?t0) / 1000 - (?l - ?t0) / 1000) * ?r"
    by (simp add: field_simps)
  also from n(4) l(4) r(1) have "\<dots> \<in> \<int>" by (intro Ints_mult Ints_diff)
  finally show i: "(now - ?l) * ?r / 1000 \<in> \<int>" .
  from ppos show p: "0 < (now - ?l) * ?r / 1000" by simp
  from le show c: "(now - ?l) * ?r / 1000 \<le> totalAmount s" by simp
  from c tot p have "\<bar>(now - ?l) * ?r / 1000\<bar> \<le> 2 ^ 53" by simp
  with i have "ndiv ((now - ?l) * ?r) 1000 = (now - ?l) * ?r / 1000" by (intro ndiv_Ints)
  then show "ndiv (nmul (nsub now ?l) ?r) 1000 = (now - ?l) * ?r / 1000"
    by (simp add: e m)
qed

lemma whole_remainder:
  assumes wh: "whole_stream s"
  shows "nsub (totalAmount s) (withdrawnAmount s) = totalAmount s - withdrawnAmount s"
proof -
  from wh have "totalAmount s \<in> \<int>" "withdrawnAmount s \<in> \<int>" "0 \<le> withdrawnAmount s"
    "withdrawnAmount s \<le> totalAmount s" "1000 * totalAmount s \<le> 2 ^ 53"
    by (simp_all add: whole_stream_def)
  moreover from this have "\<bar>totalAmount s - withdrawnAmount s\<bar> \<le> 2 ^ 53" by simp
  ultimately show ?thesis by (intro nsub_Ints)
qed

lemma whole_sum:
  assumes wh: "whole_stream s" and p: "p \<in> \<int>" "0 < p" "p \<le> totalAmount s"
  shows "nadd (withdrawnAmount s) p = withdrawnAmount s + p"
proof -
  from wh have "withdrawnAmount s \<in> \<int>" "0 \<le> withdrawnAmount s"
    "withdrawnAmount s \<le> totalAmount s" "1000 * totalAmount s \<le> 2 ^ 53"
    by (simp_all add: whole_stream_def)
  moreover from this p have "\<bar>withdrawnAmount s + p\<bar> \<le> 2 ^ 53" by simp
  ultimately show ?thesis using p(1) by (intro nadd_Ints)
qed

lemma touches_only_refl: "streams L i = Some s \<Longrightarrow> touches_only i L L s []"
  by (simp add: touches_only_def map_upd_triv)

lemma settles_refl: "settles s [] s"
  by (simp add: settles_def same_terms_def coins_sent_num_def)

lemma touches_only_trans:
  "touches_only i L L' s' new \<Longrightarrow> touches_only i L' L'' s'' new'
     \<Longrightarrow> touches_only i L L'' s'' (new @ new')"
  by (simp add: touches_only_def)

lemma settles_trans:
  assumes "settles s new s'" "settles s' new' s''"
  shows "settles s (new @ new') s''"
  using assms by (auto simp: settles_def same_terms_def coins_sent_num_def)

lemma process_num_whole:
  assumes st: "streams L i = Some s" and wh: "whole_stream s"
    and on: "on_second (startTime s) (timestamp ctx)"
  shows "\<exists>s' new. touches_only i L (snd (processStreamPayment_num ctx i L)) s' new
           \<and> whole_stream s' \<and> settles s new s'"
proof -
  let ?now = "timestamp ctx"
  let ?p = "ndiv (nmul (nsub ?now (lastPaymentTime s)) (ratePerSecond s)) 1000"
  let ?L' = "snd (processStreamPayment_num ctx i L)"
  note rem = whole_remainder[OF wh]
  consider (idle) "isCancelled s \<or> isPaused s"
    | (final) "\<not> isCancelled s" "\<not> isPaused s" "endTime s \<le> ?now"
    | (pays) "\<not> isCancelled s" "\<not> isPaused s" "\<not> endTime s \<le> ?now"
        "0 < ?p" "nadd (withdrawnAmount s) ?p \<le> totalAmount s"
    | (skips) "\<not> isCancelled s" "\<not> isPaused s" "\<not> endTime s \<le> ?now"
        "\<not> (0 < ?p \<and> nadd (withdrawnAmount s) ?p \<le> totalAmount s)"
    by blast
  then show ?thesis
  proof cases
    case idle
    with st have "?L' = L" by (auto simp: processStreamPayment_num_def)
    with touches_only_refl[OF st] wh settles_refl[of s] show ?thesis by auto
  next
    case final
    show ?thesis
    proof (cases "0 < totalAmount s - withdrawnAmount s")
      case True
      let ?s' = "s\<lparr>withdrawnAmount := totalAmount s, isCancelled := True\<rparr>"
      let ?new = "[(recipient s, totalAmount s - withdrawnAmount s)]"
      from st final True have "touches_only i L ?L' ?s' ?new"
        by (simp add: processStreamPayment_num_def Let_def storeStream_def transferCoins_def
              touches_only_def rem)
      moreover from wh True have "whole_stream ?s'"
        by (simp add: whole_stream_def)
      moreover from final(1) have "settles s ?new ?s'"
        by (simp add: settles_def same_terms_def coins_sent_num_def settled_num_def)
      ultimately show ?thesis by blast
    next
      case False
      with wh have eq: "withdrawnAmount s = totalAmount s" by (simp add: whole_stream_def)
      let ?s' = "s\<lparr>isCancelled := True\<rparr>"
      from st final False have "touches_only i L ?L' ?s' []"
        by (simp add: processStreamPayment_num_def Let_def storeStream_def transferCoins_def
              touches_only_def rem)
      moreover from wh have "whole_stream ?s'" by (simp add: whole_stream_def)
      moreover from final(1) eq have "settles s [] ?s'"
        by (simp add: settles_def same_terms_def coins_sent_num_def settled_num_def)
      ultimately show ?thesis by blast
    qed
  next
    case pays
    from wh have r0: "0 \<le> ratePerSecond s" by (simp add: whole_stream_def)
    have af: "lastPaymentTime s < ?now"
    proof (rule ccontr)
      assume "\<not> lastPaymentTime s < ?now"
      then have "?now \<le> lastPaymentTime s" by simp
      from accrued_nonpos[OF this r0] pays(4) show False by simp
    qed
    from pays(3) have be: "?now < endTime s" by simp
    note acc = whole_accrual[OF wh on be af]
    let ?q = "(?now - lastPaymentTime s) * ratePerSecond s / 1000"
    from whole_sum[OF wh acc(2,3,4)] have sum: "nadd (withdrawnAmount s) ?q = withdrawnAmount s + ?q" .
    let ?s' = "s\<lparr>withdrawnAmount := withdrawnAmount s + ?q, lastPaymentTime := ?now\<rparr>"
    let ?new = "[(recipient s, ?q)]"
    from pays(4,5) have g: "0 < ?q" "withdrawnAmount s + ?q \<le> totalAmount s"
      by (simp_all add: acc(1) sum)
    from st pays(1,2,3) g have "touches_only i L ?L' ?s' ?new"
      by (simp add: processStreamPayment_num_def Let_def storeStream_def transferCoins_def
            touches_only_def scheduleNextPayment_num_def acc(1) sum)
    moreover from wh on g acc(2) have "whole_stream ?s'"
      by (simp add: whole_stream_def)
    moreover from pays(1) have "settles s ?new ?s'"
      by (simp add: settles_def same_terms_def coins_sent_num_def settled_num_def)
    ultimately show ?thesis by blast
  next
    case skips
    with st have "touches_only i L ?L' s []"
      by (auto simp: processStreamPayment_num_def Let_def scheduleNextPayment_num_def
            touches_only_def map_upd_triv)
    with wh settles_refl[of s] show ?thesis by blast
  qed
qed

lemma cancel_num_whole:
  assumes st: "streams L i = Some s" and wh: "whole_stream s"
  shows "\<exists>s' new. touches_only i L (snd (cancelStream_num ctx i L)) s' new
           \<and> whole_stream s' \<and> settles s new s'"
proof -
  let ?L' = "snd (cancelStream_num ctx i L)"
  note rem = whole_remainder[OF wh]
  show ?thesis
  proof (cases "sender s \<noteq> caller ctx \<or> isCancelled s")
    case True
    with st have "?L' = L" by (auto simp: cancelStream_num_def)
    with touches_only_refl[OF st] wh settles_refl[of s] show ?thesis by auto
  next
    case False
    let ?s' = "s\<lparr>isCancelled := True\<rparr>"
    let ?new = "if 0 < totalAmount s - withdrawnAmount s
                then [(sender s, totalAmount s - withdrawnAmount s)] else []"
    from st False have "touches_only i L ?L' ?s' ?new"
      by (simp add: cancelStream_num_def Let_def storeStream_def transferCoins_def
            touches_only_def rem)
    moreover from wh have "whole_stream ?s'" by (simp add: whole_stream_def)
    moreover from False wh have "settles s ?new ?s'"
      by (simp add: settles_def same_terms_def coins_sent_num_def settled_num_def
            whole_stream_def)
    ultimately show ?thesis by blast
  qed
qed

lemma pause_num_whole:
  assumes st: "streams L i = Some s" and wh: "whole_stream s"
  shows "\<exists>s' new. touches_only i L (snd (pauseStream_num ctx i L)) s' new
           \<and> whole_stream s' \<and> settles s new s'"
proof -
  let ?L' = "snd (pauseStream_num ctx i L)"
  show ?thesis
  proof (cases "sender s \<noteq> caller ctx \<or> isCancelled s \<or> isPaused s")
    case True
    with st have "?L' = L" by (auto simp: pauseStream_num_def)
    with touches_only_refl[OF st] wh settles_refl[of s] show ?thesis by auto
  next
    case False
    let ?s' = "s\<lparr>isPaused := True\<rparr>"
    from st False have "touches_only i L ?L' ?s' []"
      by (simp add: pauseStream_num_def Let_def storeStream_def touches_only_def)
    moreover from wh have "whole_stream ?s'" by (simp add: whole_stream_def)
    moreover from False have "settles s [] ?s'"
      by (simp add: settles_def same_terms_def coins_sent_num_def settled_num_def)
    ultimately show ?thesis by blast
  qed
qed

lemma resume_num_whole:
  assumes st: "streams L i = Some s" and wh: "whole_stream s"
    and on: "on_second (startTime s) (timestamp ctx)"
  shows "\<exists>s' new. touches_only i L (snd (resumeStream_num ctx i L)) s' new
           \<and> whole_stream s' \<and> settles s new s'"
proof -
  let ?L' = "snd (resumeStream_num ctx i L)"
  show ?thesis
  proof (cases "sender s \<noteq> caller ctx \<or> isCancelled s \<or> \<not> isPaused s")
    case True
    with st have "?L' = L" by (auto simp: resumeStream_num_def)
    with touches_only_refl[OF st] wh settles_refl[of s] show ?thesis by auto
  next
    case False
    let ?s' = "s\<lparr>isPaused := False, lastPaymentTime := timestamp ctx\<rparr>"
    from st False have "touches_only i L ?L' ?s' []"
      by (simp add: resumeStream_num_def Let_def storeStream_def touches_only_def
            scheduleNextPayment_num_def)
    moreover from wh on have "whole_stream ?s'" by (simp add: whole_stream_def)
    moreover from False have "settles s [] ?s'"
      by (simp add: settles_def same_terms_def coins_sent_num_def settled_num_def)
    ultimately show ?thesis by blast
  qed
qed

lemma exec_num_whole:
  assumes "streams L i = Some s" "whole_stream s"
    and "on_second (startTime s) (timestamp ctx)" "target c = Some i"
  shows "\<exists>s' new. touches_only i L (exec_num (ctx, c) L) s' new
           \<and> whole_stream s' \<and> settles s new s'"
  using assms
  by (cases c)
     (simp_all add: process_num_whole cancel_num_whole pause_num_whole resume_num_whole)

lemma run_num_whole:
  assumes "streams L i = Some s" "whole_stream s" "whole_seconds (startTime s) cs"
    and "\<forall>c \<in> set cs. target (snd c) = Some i"
  shows "\<exists>s' new. touches_only i L (run_num cs L) s' new \<and> settles s new s'"
  using assms
proof (induction cs arbitrary: L s)
  case Nil
  with touches_only_refl settles_refl show ?case by (metis run_num.simps(1))
next
  case (Cons c cs)
  obtain ctx cmd where c: "c = (ctx, cmd)" by (cases c)
  from Cons.prems c have tg: "target cmd = Some i"
    and on: "on_second (startTime s) (timestamp ctx)"
    and rest: "whole_seconds (startTime s) cs"
    by (simp_all add: whole_seconds_def)
  from exec_num_whole[OF Cons.prems(1,2) on tg]
  obtain s1 new1 where t1: "touches_only i L (exec_num c L) s1 new1"
    and w1: "whole_stream s1" and a1: "settles s new1 s1" unfolding c by blast
  from t1 have st1: "streams (exec_num c L) i = Some s1" by (simp add: touches_only_def)
  from a1 have "startTime s1 = startTime s" by (simp add: settles_def same_terms_def)
  with rest have rest1: "whole_seconds (startTime s1) cs" by simp
  from Cons.prems(4) have "\<forall>c \<in> set cs. target (snd c) = Some i" by simp
  from Cons.IH[OF st1 w1 rest1 this]
  obtain s2 new2 where t2: "touches_only i (exec_num c L) (run_num cs (exec_num c L)) s2 new2"
    and a2: "settles s1 new2 s2" by blast
  from touches_only_trans[OF t1 t2] settles_trans[OF a1 a2]
  show ?case by (metis run_num.simps(2))
qed

subsection \<open>The cap\<close>

lemma exec_num_cap:
  assumes "streams L i = Some s" "withdrawnAmount s \<le> totalAmount s" "target c = Some i"
  shows "\<exists>s'. streams (exec_num (ctx, c) L) i = Some s' \<and> totalAmount s' = totalAmount s
            \<and> withdrawnAmount s' \<le> totalAmount s'"
  using assms
  by (cases c)
     (auto simp: processStreamPayment_num_def cancelStream_num_def pauseStream_num_def
        resumeStream_num_def Let_def storeStream_def transferCoins_def
        scheduleNextPayment_num_def)

lemma run_num_cap:
  assumes "streams L i = Some s" "withdrawnAmount s \<le> totalAmount s"
    and "\<forall>c \<in> set cs. target (snd c) = Some i"
  shows "\<exists>s'. streams (run_num cs L) i = Some s' \<and> totalAmount s' = totalAmount s
            \<and> withdrawnAmount s' \<le> totalAmount s'"
  using assms
proof (induction cs arbitrary: L s)
  case Nil
  then show ?case by simp
next
  case (Cons c cs)
  obtain ctx cmd where c: "c = (ctx, cmd)" by (cases c)
  from Cons.prems c have "target cmd = Some i" by simp
  from exec_num_cap[OF Cons.prems(1,2) this, of ctx]
  obtain s1 where s1: "streams (exec_num c L) i = Some s1" "totalAmount s1 = totalAmount s"
    "withdrawnAmount s1 \<le> totalAmount s1" unfolding c by blast
  from Cons.prems(3) have "\<forall>c \<in> set cs. target (snd c) = Some i" by simp
  from Cons.IH[OF s1(1) s1(3) this] s1(2) show ?case by simp
qed

lemma createStream_num_whole:
  assumes cr: "createStream_num ctx rcpt d ty iv L = (Inr i, L')"
    and wt: "whole_terms ctx d"
  shows "\<exists>s. streams L' i = Some s \<and> whole_stream s \<and> startTime s = timestamp ctx
           \<and> withdrawnAmount s = 0 \<and> \<not> isCancelled s"
proof -
  let ?tot = "transferredCoins ctx" and ?t0 = "timestamp ctx"
  note st = createStream_num_stores[OF cr]
  from st have pos: "0 < ?tot" "0 < d" by simp_all
  from wt have w: "?tot \<in> \<int>" "d \<in> \<int>" "?tot / d \<in> \<int>" "?t0 \<in> \<int>" "0 \<le> ?t0"
    "1000 * ?tot \<le> 2 ^ 53" "?t0 + 1000 * d \<le> 2 ^ 53"
    by (simp_all add: whole_terms_def)
  from w(2) pos(2) have d1: "1 \<le> d" by (auto elim!: Ints_cases)
  with pos(1) have "?tot / d \<le> ?tot" by (simp add: field_simps)
  moreover from pos have qpos: "0 < ?tot / d" by simp
  ultimately have "\<bar>?tot / d\<bar> \<le> 2 ^ 53" using w(6) pos(1) by simp
  with w(3) have rate: "ndiv ?tot d = ?tot / d" by (intro ndiv_Ints)
  from w(5,7) pos(2) have "\<bar>d * 1000\<bar> \<le> 2 ^ 53" by simp
  with w(2) have dur: "nmul d 1000 = d * 1000" by (intro nmul_Ints) simp_all
  from w(5,7) pos(2) have "\<bar>?t0 + d * 1000\<bar> \<le> 2 ^ 53" by simp
  with w(2,4) have en: "nadd ?t0 (d * 1000) = ?t0 + d * 1000" by (intro nadd_Ints) simp_all
  from pos(2) have "?tot / d * (?t0 + d * 1000 - ?t0) = 1000 * ?tot" by simp
  moreover from w(5,7) pos(2) have "?t0 \<le> 2 ^ 53" by simp
  ultimately show ?thesis
    using st w qpos pos
    by (simp add: whole_stream_def on_second_def rate dur en)
qed

subsection \<open>Creation and the regular payment\<close>

lemma regular_payment_num:
  assumes "streams M j = Some s" "\<not> isCancelled s" "\<not> isPaused s" "timestamp now < endTime s"
  shows "processStreamPayment_num now j M =
        (let amount = ndiv (nmul (nsub (timestamp now) (lastPaymentTime s)) (ratePerSecond s)) 1000
         in (Inr (),
          if 0 < amount \<and> nadd (withdrawnAmount s) amount \<le> totalAmount s
          then M\<lparr>streams := (streams M)(j \<mapsto> s\<lparr>withdrawnAmount := nadd (withdrawnAmount s) amount,
                                                  lastPaymentTime := timestamp now\<rparr>),
                  transfers := transfers M @ [(recipient s, amount)],
                  deferred := deferred M @ [(j, nmul (intervalSeconds s) 1000)]\<rparr>
          else M\<lparr>deferred := deferred M @ [(j, nmul (intervalSeconds s) 1000)]\<rparr>))"
  using assms
  by (simp add: processStreamPayment_num_def Let_def storeStream_def transferCoins_def
        scheduleNextPayment_num_def)

lemma three_halves: "ndiv 3 2 = 3 / 2"
proof -
  have "binary64 (of_int 3 / 2 ^ 1) = of_int 3 / 2 ^ 1" by (rule binary64_frac) simp_all
  then show ?thesis by (simp add: ndiv_def)
qed

lemma one_minute_of_3600_num:
  assumes tc: "transferredCoins c0 = 3600" and iv: "0 < iv0"
    and t0: "timestamp c0 \<in> \<int>" "0 \<le> timestamp c0" "timestamp c0 + 3600000 \<le> 2 ^ 53"
  shows "\<exists>k K s0 s1.
           createStream_num c0 rcpt0 3600 ty0 iv0 L0 = (Inr k, K)
         \<and> streams K k = Some s0 \<and> ratePerSecond s0 = 1
         \<and> streams (snd (processStreamPayment_num (c0\<lparr>timestamp := timestamp c0 + 60000\<rparr>) k K)) k
             = Some s1
         \<and> withdrawnAmount s1 = 60
         \<and> transfers (snd (processStreamPayment_num (c0\<lparr>timestamp := timestamp c0 + 60000\<rparr>) k K))
             = transfers L0 @ [(rcpt0, 60)]"
proof -
  let ?t0 = "timestamp c0"
  let ?k = "nadd (case stream_counter L0 of None \<Rightarrow> 0 | Some c \<Rightarrow> c) 1"
  let ?s0 = "\<lparr>sender = caller c0, recipient = rcpt0, startTime = ?t0,
              endTime = ?t0 + 3600000, ratePerSecond = 1, lastPaymentTime = ?t0,
              totalAmount = 3600, withdrawnAmount = 0, isPaused = False, isCancelled = False,
              streamType = ty0, intervalSeconds = iv0\<rparr>"
  let ?K = "L0\<lparr>stream_counter := Some ?k, streams := (streams L0)(?k \<mapsto> ?s0),
               deferred := deferred L0 @ [(?k, nmul iv0 1000)]\<rparr>"
  from t0 have en: "nadd ?t0 3600000 = ?t0 + 3600000" by (intro nadd_Ints) simp_all
  from t0 have el: "nsub (?t0 + 60000) ?t0 = 60000"
    using nsub_Ints[of "?t0 + 60000" ?t0] by simp
  have cr: "createStream_num c0 rcpt0 3600 ty0 iv0 L0 = (Inr ?k, ?K)"
    using tc iv
    by (simp add: createStream_num_def Let_def storeStream_def scheduleNextPayment_num_def
          ndiv_Ints nmul_Ints en)
  have st: "streams ?K ?k = Some ?s0" by simp
  have "timestamp (c0\<lparr>timestamp := ?t0 + 60000\<rparr>) < endTime ?s0" by simp
  from regular_payment_num[OF st _ _ this]
  have "processStreamPayment_num (c0\<lparr>timestamp := ?t0 + 60000\<rparr>) ?k ?K =
      (Inr (), ?K\<lparr>streams := (streams ?K)(?k \<mapsto> ?s0\<lparr>withdrawnAmount := 60,
                                                     lastPaymentTime := ?t0 + 60000\<rparr>),
                 transfers := transfers ?K @ [(rcpt0, 60)],
                 deferred := deferred ?K @ [(?k, nmul iv0 1000)]\<rparr>)"
    by (simp add: el nmul_Ints ndiv_Ints nadd_Ints)
  then have p: "streams (snd (processStreamPayment_num (c0\<lparr>timestamp := ?t0 + 60000\<rparr>) ?k ?K)) ?k
      = Some (?s0\<lparr>withdrawnAmount := 60, lastPaymentTime := ?t0 + 60000\<rparr>)"
    "transfers (snd (processStreamPayment_num (c0\<lparr>timestamp := ?t0 + 60000\<rparr>) ?k ?K))
      = transfers L0 @ [(rcpt0, 60)]"
    by simp_all
  have r0: "ratePerSecond ?s0 = 1" by simp
  have w1: "withdrawnAmount (?s0\<lparr>withdrawnAmount := 60, lastPaymentTime := ?t0 + 60000\<rparr>) = 60"
    by simp
  from cr st r0 p(1) w1 p(2) show ?thesis by blast
qed

subsection \<open>What one invocation writes\<close>

lemma run_num_append: "run_num (cs @ cs') L = run_num cs' (run_num cs L)"
  by (induction cs arbitrary: L) simp_all

lemma final_payment_num:
  assumes "streams L i = Some s" "\<not> isCancelled s" "\<not> isPaused s" "endTime s \<le> timestamp ctx"
  shows "streams (snd (processStreamPayment_num ctx i L)) i =
           Some ((if 0 < nsub (totalAmount s) (withdrawnAmount s)
                  then s\<lparr>withdrawnAmount := totalAmount s\<rparr> else s)\<lparr>isCancelled := True\<rparr>)"
  using assms
  by (simp add: processStreamPayment_num_def Let_def storeStream_def transferCoins_def)

lemma regular_payment_num_record:
  assumes "streams L i = Some s" "\<not> isCancelled s" "\<not> isPaused s"
    and "\<not> endTime s \<le> timestamp ctx"
  shows "streams (snd (processStreamPayment_num ctx i L)) i =
           Some (let amount = ndiv (nmul (nsub (timestamp ctx) (lastPaymentTime s))
                                 (ratePerSecond s)) 1000
                 in if 0 < amount \<and> nadd (withdrawnAmount s) amount \<le> totalAmount s
                    then s\<lparr>withdrawnAmount := nadd (withdrawnAmount s) amount,
                           lastPaymentTime := timestamp ctx\<rparr>
                    else s)"
  using assms
  by (simp add: processStreamPayment_num_def Let_def storeStream_def transferCoins_def
        scheduleNextPayment_num_def)

lemma resume_num_record:
  assumes "streams L i = Some s" "caller ctx = sender s" "\<not> isCancelled s" "isPaused s"
  shows "streams (snd (resumeStream_num ctx i L)) i =
           Some (s\<lparr>isPaused := False, lastPaymentTime := timestamp ctx\<rparr>)"
  using assms
  by (simp add: resumeStream_num_def Let_def storeStream_def scheduleNextPayment_num_def)

subsection \<open>The checks and the two ends of a payment, with numbers\<close>

text \<open>
  What the properties below state with 64-bit integers holds with numbers in the same way:
  the assertions do not compute, and the final payment and the skipped payment compare and
  store what the arithmetic of numbers gives.
\<close>

lemma final_payment_num_ledger:
  assumes "streams L i = Some s" "\<not> isCancelled s" "\<not> isPaused s" "endTime s \<le> timestamp ctx"
  shows "processStreamPayment_num ctx i L =
           (Inr (),
            if 0 < nsub (totalAmount s) (withdrawnAmount s)
            then L\<lparr>streams := (streams L)(i \<mapsto> s\<lparr>withdrawnAmount := totalAmount s,
                                                    isCancelled := True\<rparr>),
                   transfers := transfers L
                     @ [(recipient s, nsub (totalAmount s) (withdrawnAmount s))]\<rparr>
            else L\<lparr>streams := (streams L)(i \<mapsto> s\<lparr>isCancelled := True\<rparr>)\<rparr>)"
  using assms
  by (simp add: processStreamPayment_num_def Let_def storeStream_def transferCoins_def)

lemma paused_or_cancelled_num:
  assumes "streams L i = Some s" "isPaused s \<or> isCancelled s"
  shows "processStreamPayment_num ctx i L
           = (Inl (if isCancelled s then Cancelled else Paused), L)"
  using assms by (auto simp: processStreamPayment_num_def)

lemma not_sender_num:
  assumes "streams L i = Some s" "caller ctx \<noteq> sender s"
  shows "pauseStream_num ctx i L = (Inl Unauthorized, L)
       \<and> resumeStream_num ctx i L = (Inl Unauthorized, L)
       \<and> cancelStream_num ctx i L = (Inl Unauthorized, L)"
  using assms by (auto simp: pauseStream_num_def resumeStream_num_def cancelStream_num_def)

lemma cancelled_rejects_num:
  assumes "streams L i = Some s" "isCancelled s" "target c = Some i"
  shows "exec_num (ctx, c) L = L"
  using assms
  by (cases c)
     (auto simp: processStreamPayment_num_def cancelStream_num_def pauseStream_num_def
        resumeStream_num_def)

lemma overshoot_num:
  assumes "streams L i = Some s" "\<not> isCancelled s" "\<not> isPaused s" "timestamp ctx < endTime s"
    and "totalAmount s < nadd (withdrawnAmount s)
           (ndiv (nmul (nsub (timestamp ctx) (lastPaymentTime s)) (ratePerSecond s)) 1000)"
  shows "processStreamPayment_num ctx i L =
           (Inr (), L\<lparr>deferred := deferred L @ [(i, nmul (intervalSeconds s) 1000)]\<rparr>)"
  using assms regular_payment_num[of L i s ctx] by (simp add: Let_def)

subsection \<open>Evaluation on the samples\<close>

lemmas num_eval =
  Let_def storeStream_def transferCoins_def scheduleNextPayment_num_def
  alice_at_num_def alice_funds_num_def fresh_ledger_num_def
  nadd_Ints nsub_Ints nmul_Ints ndiv_Ints

section \<open>The properties\<close>

text \<open>
  Claim C1. Take a stream as \<^verbatim>\<open>createStream\<close> made it and any sequence of calls of
  \<^verbatim>\<open>processStreamPayment\<close> and \<^verbatim>\<open>cancelStream\<close> on it (calls of \<^verbatim>\<open>pauseStream\<close> and
  \<^verbatim>\<open>resumeStream\<close> on it may be mixed in), by any callers. After the sequence, and so after
  each of its prefixes, the record has \<open>withdrawnAmount \<le> totalAmount\<close>, whatever the amounts
  and the timestamps were. When the terms are whole and every call comes a whole number of
  seconds after the start (in any order), the coins transferred since the creation went to
  the recipient or the sender only, add up to \<open>withdrawnAmount\<close> while the stream is live and
  never to more than \<open>totalAmount\<close>, and add up to exactly \<open>totalAmount\<close> (the escrowed coins)
  once the stream is terminal.

  Without the whole numbers the sum is not exact. For a stream of 1 coin over 10 seconds,
  three payments one second apart and a cancellation: each payment is the double nearest to
  \<open>1 / 10\<close>, the three add up (with rounding) to \<open>dime_paid\<close>, the refund is \<open>1 - dime_paid\<close>,
  and the stream is terminal; the four transfers add up to \<open>1 - 1 / 2 ^ 55\<close>, not to the
  \<open>totalAmount\<close> 1.
\<close>

theorem conservation:
  assumes cr: "createStream_num ctx0 rcpt d ty iv L0 = (Inr i, L1)"
    and on: "\<forall>c \<in> set cs. target (snd c) = Some i"
  shows "\<exists>s. streams (run_num cs L1) i = Some s
           \<and> totalAmount s = transferredCoins ctx0
           \<and> withdrawnAmount s \<le> totalAmount s
           \<and> (whole_terms ctx0 d \<and> whole_seconds (timestamp ctx0) cs \<longrightarrow>
                (\<exists>new. transfers (run_num cs L1) = transfers L1 @ new
                   \<and> (\<forall>t \<in> set new. fst t = recipient s \<or> fst t = sender s)
                   \<and> coins_sent_num new \<le> totalAmount s
                   \<and> (\<not> isCancelled s \<longrightarrow> coins_sent_num new = withdrawnAmount s)
                   \<and> (isCancelled s \<longrightarrow> coins_sent_num new = totalAmount s)))"
proof -
  from createStream_num_stores[OF cr]
  obtain s0 where s0: "streams L1 i = Some s0" "withdrawnAmount s0 = 0"
    "totalAmount s0 = transferredCoins ctx0" "0 < transferredCoins ctx0" by simp
  from s0(2,3,4) have "withdrawnAmount s0 \<le> totalAmount s0" by simp
  from run_num_cap[OF s0(1) this on]
  obtain s where s: "streams (run_num cs L1) i = Some s" "totalAmount s = totalAmount s0"
    "withdrawnAmount s \<le> totalAmount s" by blast
  have "\<exists>new. transfers (run_num cs L1) = transfers L1 @ new
           \<and> (\<forall>t \<in> set new. fst t = recipient s \<or> fst t = sender s)
           \<and> coins_sent_num new \<le> totalAmount s
           \<and> (\<not> isCancelled s \<longrightarrow> coins_sent_num new = withdrawnAmount s)
           \<and> (isCancelled s \<longrightarrow> coins_sent_num new = totalAmount s)"
    if wt: "whole_terms ctx0 d" and ws: "whole_seconds (timestamp ctx0) cs"
  proof -
    from createStream_num_whole[OF cr wt] s0(1)
    have w0: "whole_stream s0" "startTime s0 = timestamp ctx0" "\<not> isCancelled s0" by auto
    from ws w0(2) have "whole_seconds (startTime s0) cs" by simp
    from run_num_whole[OF s0(1) w0(1) this on]
    obtain s' new where t: "touches_only i L1 (run_num cs L1) s' new"
      and a: "settles s0 new s'" by blast
    from t s(1) have eq: "s' = s" by (simp add: touches_only_def)
    from a s0(2) w0(3) have sum: "coins_sent_num new = settled_num s"
      unfolding eq by (simp add: settles_def settled_num_def)
    with s(3) have "coins_sent_num new \<le> totalAmount s"
      "\<not> isCancelled s \<longrightarrow> coins_sent_num new = withdrawnAmount s"
      "isCancelled s \<longrightarrow> coins_sent_num new = totalAmount s"
      by (simp_all add: settled_num_def)
    moreover from a have "\<forall>t \<in> set new. fst t = recipient s \<or> fst t = sender s"
      unfolding eq by (simp add: settles_def same_terms_def)
    moreover from t have "transfers (run_num cs L1) = transfers L1 @ new"
      by (simp add: touches_only_def)
    ultimately show ?thesis by blast
  qed
  with s s0(3) show ?thesis by auto
qed

theorem conservation_witness:
  "createStream_num (alice_funds_num 3600) ''bob'' 3600 0 60 fresh_ledger_num
     = (Inr 1, sample_ledger_num sample_stream_num)
   \<and> map (\<lambda>c. target (snd c)) [(alice_at_num 60000, Process 1), (alice_at_num 120000, Cancel 1)]
        = [Some 1, Some 1]
   \<and> whole_terms (alice_funds_num 3600) 3600
   \<and> whole_seconds (timestamp (alice_funds_num 3600))
        [(alice_at_num 60000, Process 1), (alice_at_num 120000, Cancel 1)]
   \<and> (\<exists>s new. streams (run_num [(alice_at_num 60000, Process 1), (alice_at_num 120000, Cancel 1)]
                        (sample_ledger_num sample_stream_num)) 1 = Some s
         \<and> withdrawnAmount s \<le> totalAmount s
         \<and> isCancelled s
         \<and> transfers (run_num [(alice_at_num 60000, Process 1), (alice_at_num 120000, Cancel 1)]
                        (sample_ledger_num sample_stream_num))
             = transfers (sample_ledger_num sample_stream_num) @ new
         \<and> coins_sent_num new = totalAmount s
         \<and> totalAmount s = 3600)"
proof -
  let ?cs = "[(alice_at_num 60000, Process 1), (alice_at_num 120000, Cancel 1)]"
  have h1: "createStream_num (alice_funds_num 3600) ''bob'' 3600 0 60 fresh_ledger_num
      = (Inr 1, sample_ledger_num sample_stream_num)"
    by (simp add: createStream_num_def num_eval sample_ledger_num_def sample_stream_num_def)
  have h2: "\<forall>c \<in> set ?cs. target (snd c) = Some 1" by simp
  have h3: "whole_terms (alice_funds_num 3600) 3600"
    by (simp add: whole_terms_def alice_funds_num_def)
  have h4: "whole_seconds (timestamp (alice_funds_num 3600)) ?cs"
    by (simp add: whole_seconds_def on_second_def alice_funds_num_def alice_at_num_def)
  have c: "isCancelled s"
    if "streams (run_num ?cs (sample_ledger_num sample_stream_num)) 1 = Some s" for s
    using that
    by (auto simp: processStreamPayment_num_def cancelStream_num_def sample_ledger_num_def
          sample_stream_num_def num_eval)
  have t: "transferredCoins (alice_funds_num 3600) = 3600" by (simp add: alice_funds_num_def)
  from conservation [OF h1 h2] h3 h4 c t
  have "\<exists>s new. streams (run_num ?cs (sample_ledger_num sample_stream_num)) 1 = Some s
         \<and> withdrawnAmount s \<le> totalAmount s
         \<and> isCancelled s
         \<and> transfers (run_num ?cs (sample_ledger_num sample_stream_num))
             = transfers (sample_ledger_num sample_stream_num) @ new
         \<and> coins_sent_num new = totalAmount s
         \<and> totalAmount s = 3600"
    by metis
  moreover have "map (\<lambda>c. target (snd c)) ?cs = [Some 1, Some 1]" by simp
  ultimately show ?thesis using h1 h3 h4 by blast
qed

theorem conservation_lost_to_rounding:
  "createStream_num (alice_funds_num 1) ''bob'' 10 0 1 fresh_ledger_num = (Inr 1, dime_ledger)
   \<and> run_num [(alice_at_num 1000, Process 1), (alice_at_num 2000, Process 1),
               (alice_at_num 3000, Process 1), (alice_at_num 4000, Cancel 1)] dime_ledger
       = \<lparr>streams = [1 \<mapsto> dime_stream\<lparr>withdrawnAmount := dime_paid, lastPaymentTime := 3000,
                                      isCancelled := True\<rparr>],
          stream_counter = Some 1,
          transfers = [(''bob'', dime_rate), (''bob'', dime_rate), (''bob'', dime_rate),
                       (''alice'', dime_refund)],
          deferred = [(1, 1000), (1, 1000), (1, 1000), (1, 1000)]\<rparr>
   \<and> coins_sent_num [(''bob'', dime_rate), (''bob'', dime_rate), (''bob'', dime_rate),
                      (''alice'', dime_refund)] = 1 - 1 / 2 ^ 55
   \<and> totalAmount dime_stream = 1"
proof -
  have a: "createStream_num (alice_funds_num 1) ''bob'' 10 0 1 fresh_ledger_num
      = (Inr 1, dime_ledger)"
    by (simp add: createStream_num_def num_eval dime_ledger_def dime_stream_def
          dime_rate_round dime_order)
  have b: "run_num [(alice_at_num 1000, Process 1), (alice_at_num 2000, Process 1),
               (alice_at_num 3000, Process 1), (alice_at_num 4000, Cancel 1)] dime_ledger
       = \<lparr>streams = [1 \<mapsto> dime_stream\<lparr>withdrawnAmount := dime_paid, lastPaymentTime := 3000,
                                      isCancelled := True\<rparr>],
          stream_counter = Some 1,
          transfers = [(''bob'', dime_rate), (''bob'', dime_rate), (''bob'', dime_rate),
                       (''alice'', dime_refund)],
          deferred = [(1, 1000), (1, 1000), (1, 1000), (1, 1000)]\<rparr>"
    by (simp add: processStreamPayment_num_def cancelStream_num_def num_eval dime_ledger_def
          dime_stream_def dime_mul dime_div dime_add1 dime_add2 dime_add3 dime_sub dime_order)
  have c: "coins_sent_num [(''bob'', dime_rate), (''bob'', dime_rate), (''bob'', dime_rate),
                      (''alice'', dime_refund)] = 1 - 1 / 2 ^ 55"
    by (simp add: coins_sent_num_def dime_rate_def dime_refund_def)
  have d: "totalAmount dime_stream = 1" by (simp add: dime_stream_def)
  from a b c d show ?thesis by (intro conjI)
qed



text \<open>
  Claim C3. A stream that \<^verbatim>\<open>createStream\<close> stored has \<open>ratePerSecond = totalAmount /
  duration\<close>, the quotient of the two numbers rounded to a double and not truncated (the rate
  of 3 coins over 2 seconds is \<open>3 / 2\<close>, not 1); it is the exact quotient when that is a whole
  number up to \<open>2 ^ 53\<close>. Before \<open>endTime\<close>, on a stream that is neither paused nor cancelled,
  \<^verbatim>\<open>processStreamPayment\<close> computes the amount \<open>(now - lastPaymentTime) * ratePerSecond /
  1000\<close> in the arithmetic of numbers; when it is positive and fits under the total it sends
  exactly this amount to the recipient, adds it to \<open>withdrawnAmount\<close> and sets
  \<open>lastPaymentTime\<close> to now, otherwise it sends nothing; either way the next call is
  scheduled. On a stream with whole terms, a whole number of seconds after the start and
  after the last checkpoint, the amount is the exact value of the formula. For 3600 coins
  over 3600 seconds the rate is 1, and one payment 60000 milliseconds after the creation
  sends 60 and leaves \<open>withdrawnAmount = 60\<close> (for a creation at a whole millisecond at least
  3600000 below \<open>2 ^ 53\<close>).
\<close>

theorem rate_and_regular_payment:
  "(createStream_num ctx rcpt d ty iv L = (Inr i, L1) \<longrightarrow>
      (\<exists>s. streams L1 i = Some s \<and> ratePerSecond s = ndiv (transferredCoins ctx) d))
   \<and> (transferredCoins ctx / d \<in> \<int> \<and> \<bar>transferredCoins ctx / d\<bar> \<le> 2 ^ 53 \<longrightarrow>
      ndiv (transferredCoins ctx) d = transferredCoins ctx / d)
   \<and> (streams M j = Some s \<and> \<not> isCancelled s \<and> \<not> isPaused s \<and> timestamp now < endTime s \<longrightarrow>
      processStreamPayment_num now j M =
        (let amount = ndiv (nmul (nsub (timestamp now) (lastPaymentTime s)) (ratePerSecond s)) 1000
         in (Inr (),
          if 0 < amount \<and> nadd (withdrawnAmount s) amount \<le> totalAmount s
          then M\<lparr>streams := (streams M)(j \<mapsto> s\<lparr>withdrawnAmount := nadd (withdrawnAmount s) amount,
                                                  lastPaymentTime := timestamp now\<rparr>),
                  transfers := transfers M @ [(recipient s, amount)],
                  deferred := deferred M @ [(j, nmul (intervalSeconds s) 1000)]\<rparr>
          else M\<lparr>deferred := deferred M @ [(j, nmul (intervalSeconds s) 1000)]\<rparr>)))
   \<and> (whole_stream s \<and> on_second (startTime s) (timestamp now) \<and> timestamp now < endTime s
        \<and> lastPaymentTime s < timestamp now \<longrightarrow>
      ndiv (nmul (nsub (timestamp now) (lastPaymentTime s)) (ratePerSecond s)) 1000
        = (timestamp now - lastPaymentTime s) * ratePerSecond s / 1000)
   \<and> (transferredCoins c0 = 3600 \<and> 0 < iv0 \<and> timestamp c0 \<in> \<int> \<and> 0 \<le> timestamp c0
        \<and> timestamp c0 + 3600000 \<le> 2 ^ 53 \<longrightarrow>
      (\<exists>k K s0 s1.
           createStream_num c0 rcpt0 3600 ty0 iv0 L0 = (Inr k, K)
         \<and> streams K k = Some s0 \<and> ratePerSecond s0 = 1
         \<and> streams (snd (processStreamPayment_num (c0\<lparr>timestamp := timestamp c0 + 60000\<rparr>) k K)) k
             = Some s1
         \<and> withdrawnAmount s1 = 60
         \<and> transfers (snd (processStreamPayment_num (c0\<lparr>timestamp := timestamp c0 + 60000\<rparr>) k K))
             = transfers L0 @ [(rcpt0, 60)]))"
proof (intro conjI impI)
  assume "createStream_num ctx rcpt d ty iv L = (Inr i, L1)"
  from createStream_num_stores[OF this]
  show "\<exists>s. streams L1 i = Some s \<and> ratePerSecond s = ndiv (transferredCoins ctx) d"
    by simp
next
  assume "transferredCoins ctx / d \<in> \<int> \<and> \<bar>transferredCoins ctx / d\<bar> \<le> 2 ^ 53"
  then show "ndiv (transferredCoins ctx) d = transferredCoins ctx / d"
    by (intro ndiv_Ints) simp_all
next
  assume "streams M j = Some s \<and> \<not> isCancelled s \<and> \<not> isPaused s \<and> timestamp now < endTime s"
  then show "processStreamPayment_num now j M =
        (let amount = ndiv (nmul (nsub (timestamp now) (lastPaymentTime s)) (ratePerSecond s)) 1000
         in (Inr (),
          if 0 < amount \<and> nadd (withdrawnAmount s) amount \<le> totalAmount s
          then M\<lparr>streams := (streams M)(j \<mapsto> s\<lparr>withdrawnAmount := nadd (withdrawnAmount s) amount,
                                                  lastPaymentTime := timestamp now\<rparr>),
                  transfers := transfers M @ [(recipient s, amount)],
                  deferred := deferred M @ [(j, nmul (intervalSeconds s) 1000)]\<rparr>
          else M\<lparr>deferred := deferred M @ [(j, nmul (intervalSeconds s) 1000)]\<rparr>))"
    by (intro regular_payment_num) simp_all
next
  assume "whole_stream s \<and> on_second (startTime s) (timestamp now) \<and> timestamp now < endTime s
        \<and> lastPaymentTime s < timestamp now"
  then show "ndiv (nmul (nsub (timestamp now) (lastPaymentTime s)) (ratePerSecond s)) 1000
        = (timestamp now - lastPaymentTime s) * ratePerSecond s / 1000"
    by (intro whole_accrual(1)) simp_all
next
  assume "transferredCoins c0 = 3600 \<and> 0 < iv0 \<and> timestamp c0 \<in> \<int> \<and> 0 \<le> timestamp c0
        \<and> timestamp c0 + 3600000 \<le> 2 ^ 53"
  then show "\<exists>k K s0 s1.
           createStream_num c0 rcpt0 3600 ty0 iv0 L0 = (Inr k, K)
         \<and> streams K k = Some s0 \<and> ratePerSecond s0 = 1
         \<and> streams (snd (processStreamPayment_num (c0\<lparr>timestamp := timestamp c0 + 60000\<rparr>) k K)) k
             = Some s1
         \<and> withdrawnAmount s1 = 60
         \<and> transfers (snd (processStreamPayment_num (c0\<lparr>timestamp := timestamp c0 + 60000\<rparr>) k K))
             = transfers L0 @ [(rcpt0, 60)]"
    by (intro one_minute_of_3600_num) simp_all
qed

theorem rate_and_regular_payment_witness:
  "createStream_num (alice_funds_num 3600) ''bob'' 3600 0 60 fresh_ledger_num
     = (Inr 1, sample_ledger_num sample_stream_num)
   \<and> ratePerSecond sample_stream_num = 1
   \<and> ndiv 3600 3600 = 1
   \<and> processStreamPayment_num (alice_at_num 60000) 1 (sample_ledger_num sample_stream_num)
     = (Inr (), \<lparr>streams = [1 \<mapsto> sample_stream_num\<lparr>withdrawnAmount := 60,
                                                    lastPaymentTime := 60000\<rparr>],
                 stream_counter = Some 1, transfers = [(''bob'', 60)],
                 deferred = [(1, 60000), (1, 60000)]\<rparr>)
   \<and> ndiv (nmul (nsub (timestamp (alice_at_num 60000)) (lastPaymentTime sample_stream_num))
             (ratePerSecond sample_stream_num)) 1000 = 60
   \<and> (\<exists>k K s0 s1.
           createStream_num (alice_funds_num 3600) ''bob'' 3600 0 60 fresh_ledger_num = (Inr k, K)
         \<and> streams K k = Some s0 \<and> ratePerSecond s0 = 1
         \<and> streams (snd (processStreamPayment_num
               ((alice_funds_num 3600)\<lparr>timestamp := timestamp (alice_funds_num 3600) + 60000\<rparr>)
               k K)) k = Some s1
         \<and> withdrawnAmount s1 = 60
         \<and> transfers (snd (processStreamPayment_num
               ((alice_funds_num 3600)\<lparr>timestamp := timestamp (alice_funds_num 3600) + 60000\<rparr>)
               k K))
             = transfers fresh_ledger_num @ [(''bob'', 60)])"
proof -
  let ?af = "alice_funds_num 3600"
  have h1: "createStream_num ?af ''bob'' 3600 0 60 fresh_ledger_num
      = (Inr 1, sample_ledger_num sample_stream_num)"
    by (simp add: createStream_num_def num_eval sample_ledger_num_def sample_stream_num_def)
  have h2: "streams (sample_ledger_num sample_stream_num) 1 = Some sample_stream_num
      \<and> \<not> isCancelled sample_stream_num \<and> \<not> isPaused sample_stream_num
      \<and> timestamp (alice_at_num 60000) < endTime sample_stream_num"
    by (simp add: sample_ledger_num_def sample_stream_num_def alice_at_num_def)
  have h3: "transferredCoins ?af = 3600 \<and> (0 :: number) < 60
      \<and> timestamp ?af \<in> \<int> \<and> 0 \<le> timestamp ?af \<and> timestamp ?af + 3600000 \<le> 2 ^ 53"
    by (simp add: alice_funds_num_def)
  have h4: "whole_stream sample_stream_num
      \<and> on_second (startTime sample_stream_num) (timestamp (alice_at_num 60000))
      \<and> timestamp (alice_at_num 60000) < endTime sample_stream_num
      \<and> lastPaymentTime sample_stream_num < timestamp (alice_at_num 60000)"
    by (simp add: whole_stream_def on_second_def sample_stream_num_def alice_at_num_def)
  have h5: "transferredCoins ?af / 3600 \<in> \<int> \<and> \<bar>transferredCoins ?af / 3600\<bar> \<le> 2 ^ 53"
    by (simp add: alice_funds_num_def)
  note r = rate_and_regular_payment [where ctx = ?af and rcpt = "''bob''" and d = 3600
      and ty = 0 and iv = 60 and L = fresh_ledger_num and i = 1
      and ?L1.0 = "sample_ledger_num sample_stream_num"
      and M = "sample_ledger_num sample_stream_num"
      and j = 1 and s = sample_stream_num and now = "alice_at_num 60000"
      and ?c0.0 = ?af and ?iv0.0 = 60 and ?rcpt0.0 = "''bob''" and ?ty0.0 = 0
      and ?L0.0 = fresh_ledger_num]
  from r h5 have "ndiv (transferredCoins ?af) 3600 = transferredCoins ?af / 3600" by blast
  then have 0: "ndiv 3600 3600 = 1" by (simp add: alice_funds_num_def)
  from r h1 have "\<exists>s. streams (sample_ledger_num sample_stream_num) 1 = Some s
      \<and> ratePerSecond s = ndiv (transferredCoins ?af) 3600" by blast
  then have 1: "ratePerSecond sample_stream_num = 1"
    by (simp add: sample_ledger_num_def alice_funds_num_def 0)
  from r h4 have "ndiv (nmul (nsub (timestamp (alice_at_num 60000))
        (lastPaymentTime sample_stream_num)) (ratePerSecond sample_stream_num)) 1000
      = (timestamp (alice_at_num 60000) - lastPaymentTime sample_stream_num)
          * ratePerSecond sample_stream_num / 1000"
    by blast
  then have 4: "ndiv (nmul (nsub (timestamp (alice_at_num 60000))
        (lastPaymentTime sample_stream_num)) (ratePerSecond sample_stream_num)) 1000 = 60"
    by (simp add: sample_stream_num_def alice_at_num_def)
  from r h2 have "processStreamPayment_num (alice_at_num 60000) 1
        (sample_ledger_num sample_stream_num) =
        (let amount = ndiv (nmul (nsub (timestamp (alice_at_num 60000))
                 (lastPaymentTime sample_stream_num)) (ratePerSecond sample_stream_num)) 1000
         in (Inr (),
          if 0 < amount \<and> nadd (withdrawnAmount sample_stream_num) amount
                \<le> totalAmount sample_stream_num
          then (sample_ledger_num sample_stream_num)
                 \<lparr>streams := (streams (sample_ledger_num sample_stream_num))
                     (1 \<mapsto> sample_stream_num\<lparr>withdrawnAmount :=
                                               nadd (withdrawnAmount sample_stream_num) amount,
                                             lastPaymentTime := timestamp (alice_at_num 60000)\<rparr>),
                  transfers := transfers (sample_ledger_num sample_stream_num)
                     @ [(recipient sample_stream_num, amount)],
                  deferred := deferred (sample_ledger_num sample_stream_num)
                     @ [(1, nmul (intervalSeconds sample_stream_num) 1000)]\<rparr>
          else (sample_ledger_num sample_stream_num)
                 \<lparr>deferred := deferred (sample_ledger_num sample_stream_num)
                     @ [(1, nmul (intervalSeconds sample_stream_num) 1000)]\<rparr>))"
    by blast
  then have 2: "processStreamPayment_num (alice_at_num 60000) 1
        (sample_ledger_num sample_stream_num)
     = (Inr (), \<lparr>streams = [1 \<mapsto> sample_stream_num\<lparr>withdrawnAmount := 60,
                                                    lastPaymentTime := 60000\<rparr>],
                 stream_counter = Some 1, transfers = [(''bob'', 60)],
                 deferred = [(1, 60000), (1, 60000)]\<rparr>)"
    unfolding 4 Let_def
    by (simp add: sample_ledger_num_def sample_stream_num_def alice_at_num_def
          nadd_Ints nmul_Ints)
  from r h3 have 3: "\<exists>k K s0 s1.
           createStream_num ?af ''bob'' 3600 0 60 fresh_ledger_num = (Inr k, K)
         \<and> streams K k = Some s0 \<and> ratePerSecond s0 = 1
         \<and> streams (snd (processStreamPayment_num
               (?af\<lparr>timestamp := timestamp ?af + 60000\<rparr>) k K)) k = Some s1
         \<and> withdrawnAmount s1 = 60
         \<and> transfers (snd (processStreamPayment_num
               (?af\<lparr>timestamp := timestamp ?af + 60000\<rparr>) k K))
             = transfers fresh_ledger_num @ [(''bob'', 60)]"
    by blast
  from h1 0 1 2 3 4 show ?thesis by blast
qed

theorem rate_is_not_truncated:
  "createStream_num (alice_funds_num 3) ''bob'' 2 0 1 fresh_ledger_num =
     (Inr 1,
      \<lparr>streams = [1 \<mapsto> \<lparr>sender = ''alice'', recipient = ''bob'', startTime = 0, endTime = 2000,
                         ratePerSecond = 3 / 2, lastPaymentTime = 0, totalAmount = 3,
                         withdrawnAmount = 0, isPaused = False, isCancelled = False,
                         streamType = 0, intervalSeconds = 1\<rparr>],
       stream_counter = Some 1, transfers = [], deferred = [(1, 1000)]\<rparr>)"
  by (simp add: createStream_num_def num_eval three_halves)

text \<open>
  Claim C4, as the contract has it. \<^verbatim>\<open>processStreamPayment\<close> on a stream that is paused or
  cancelled is stopped by an assertion: the invoker gets the error \<open>Paused\<close> or \<open>Cancelled\<close>
  (\<open>Cancelled\<close> is checked first), and the ledger is untouched: no transfer, the record as
  it was, no deferred call. So the no-op part of the claim holds, and the part that no error
  reaches the invoker does not: on the paused sample stream below the call ends in the
  error \<open>Paused\<close>.
\<close>

theorem idle_payment_rejected:
  assumes "streams L i = Some s" and "isPaused s \<or> isCancelled s"
  shows "processStreamPayment ctx i L = (Inl (if isCancelled s then Cancelled else Paused), L)"
  using assms by (auto simp: processStreamPayment_def)

theorem idle_payment_rejected_witness:
  "streams (sample_ledger (sample_stream\<lparr>isPaused := True\<rparr>)) 1
     = Some (sample_stream\<lparr>isPaused := True\<rparr>)
   \<and> (isPaused (sample_stream\<lparr>isPaused := True\<rparr>)
        \<or> isCancelled (sample_stream\<lparr>isPaused := True\<rparr>))
   \<and> processStreamPayment (alice_at 60000) 1 (sample_ledger (sample_stream\<lparr>isPaused := True\<rparr>))
       = (Inl Paused, sample_ledger (sample_stream\<lparr>isPaused := True\<rparr>))"
proof -
  let ?s = "sample_stream\<lparr>isPaused := True\<rparr>"
  have h1: "streams (sample_ledger ?s) 1 = Some ?s" by (simp add: sample_ledger_def)
  have h2: "isPaused ?s \<or> isCancelled ?s" by simp
  from idle_payment_rejected [OF h1 h2, of "alice_at 60000"]
  have "processStreamPayment (alice_at 60000) 1 (sample_ledger ?s) = (Inl Paused, sample_ledger ?s)"
    by (simp add: sample_stream_def)
  with h1 h2 show ?thesis by simp
qed

theorem paused_payment_throws:
  "streams (sample_ledger (sample_stream\<lparr>isPaused := True\<rparr>)) 1
     = Some (sample_stream\<lparr>isPaused := True\<rparr>)
   \<and> isPaused (sample_stream\<lparr>isPaused := True\<rparr>)
   \<and> fst (processStreamPayment (alice_at 60000) 1
           (sample_ledger (sample_stream\<lparr>isPaused := True\<rparr>))) = Inl Paused"
  by (simp add: processStreamPayment_def sample_ledger_def sample_stream_def)

text \<open>
  Claim C5. \<^verbatim>\<open>createStream\<close> checks the amount, the duration, the interval and the
  computed rate in this order, and the first check that fails decides the error:
  \<open>InvalidAmount\<close> for an amount that is not positive, then \<open>InvalidDuration\<close> for a duration
  that is not positive, then \<open>InvalidInterval\<close> for an interval that is not positive, then
  \<open>DegenerateRate\<close> for a computed rate of 0. Whenever one of the four conditions holds the
  call fails, every failure is for a condition that holds and returns the ledger it was given
  (the counter and all records are as before), and when none holds the call succeeds. The
  computed rate is the quotient rounded to a double: it is 0 only for a quotient below the
  smallest positive double, never because the amount is smaller than the duration.
\<close>

theorem createStream_validation:
  "(transferredCoins ctx \<le> 0 \<longrightarrow>
      createStream_num ctx rcpt d ty iv L = (Inl InvalidAmount, L))
   \<and> (0 < transferredCoins ctx \<and> d \<le> 0 \<longrightarrow>
      createStream_num ctx rcpt d ty iv L = (Inl InvalidDuration, L))
   \<and> (0 < transferredCoins ctx \<and> 0 < d \<and> iv \<le> 0 \<longrightarrow>
      createStream_num ctx rcpt d ty iv L = (Inl InvalidInterval, L))
   \<and> (0 < transferredCoins ctx \<and> 0 < d \<and> 0 < iv \<and> ndiv (transferredCoins ctx) d = 0 \<longrightarrow>
      createStream_num ctx rcpt d ty iv L = (Inl DegenerateRate, L))
   \<and> (transferredCoins ctx \<le> 0 \<or> d \<le> 0 \<or> iv \<le> 0 \<or> ndiv (transferredCoins ctx) d = 0 \<longrightarrow>
      (\<exists>e. createStream_num ctx rcpt d ty iv L = (Inl e, L)))
   \<and> (\<forall>e L'. createStream_num ctx rcpt d ty iv L = (Inl e, L') \<longrightarrow>
         L' = L \<and> stream_counter L' = stream_counter L \<and> streams L' = streams L
         \<and> (e = InvalidAmount \<and> transferredCoins ctx \<le> 0
            \<or> e = InvalidDuration \<and> d \<le> 0
            \<or> e = InvalidInterval \<and> iv \<le> 0
            \<or> e = DegenerateRate \<and> ndiv (transferredCoins ctx) d = 0))
   \<and> (0 < transferredCoins ctx \<and> 0 < d \<and> 0 < iv \<and> ndiv (transferredCoins ctx) d \<noteq> 0 \<longrightarrow>
      (\<exists>k K. createStream_num ctx rcpt d ty iv L = (Inr k, K) \<and> stream_counter K = Some k
         \<and> streams K k \<noteq> None))
   \<and> (0 < transferredCoins ctx \<and> 0 < d \<and> transferredCoins ctx / d < 2 powr (- 1075) \<longrightarrow>
      ndiv (transferredCoins ctx) d = 0)
   \<and> (2 powr (- 1074) \<le> transferredCoins ctx / d \<longrightarrow> ndiv (transferredCoins ctx) d \<noteq> 0)"
proof -
  have nn: "0 \<le> ndiv (transferredCoins ctx) d" if "0 < transferredCoins ctx" "0 < d"
    using that by (intro ndiv_nonneg) simp_all
  have a: "transferredCoins ctx \<le> 0 \<longrightarrow>
      createStream_num ctx rcpt d ty iv L = (Inl InvalidAmount, L)"
    by (simp add: createStream_num_def)
  have b: "0 < transferredCoins ctx \<and> d \<le> 0 \<longrightarrow>
      createStream_num ctx rcpt d ty iv L = (Inl InvalidDuration, L)"
    by (simp add: createStream_num_def)
  have c: "0 < transferredCoins ctx \<and> 0 < d \<and> iv \<le> 0 \<longrightarrow>
      createStream_num ctx rcpt d ty iv L = (Inl InvalidInterval, L)"
    by (simp add: createStream_num_def)
  have d: "0 < transferredCoins ctx \<and> 0 < d \<and> 0 < iv \<and> ndiv (transferredCoins ctx) d = 0 \<longrightarrow>
      createStream_num ctx rcpt d ty iv L = (Inl DegenerateRate, L)"
    by (simp add: createStream_num_def)
  have e: "transferredCoins ctx \<le> 0 \<or> d \<le> 0 \<or> iv \<le> 0 \<or> ndiv (transferredCoins ctx) d = 0 \<longrightarrow>
      (\<exists>e. createStream_num ctx rcpt d ty iv L = (Inl e, L))"
    by (auto simp: createStream_num_def Let_def)
  have f: "\<forall>e L'. createStream_num ctx rcpt d ty iv L = (Inl e, L') \<longrightarrow>
         L' = L \<and> stream_counter L' = stream_counter L \<and> streams L' = streams L
         \<and> (e = InvalidAmount \<and> transferredCoins ctx \<le> 0
            \<or> e = InvalidDuration \<and> d \<le> 0
            \<or> e = InvalidInterval \<and> iv \<le> 0
            \<or> e = DegenerateRate \<and> ndiv (transferredCoins ctx) d = 0)"
    using nn by (auto simp: createStream_num_def Let_def split: if_splits)
  have g: "0 < transferredCoins ctx \<and> 0 < d \<and> 0 < iv \<and> ndiv (transferredCoins ctx) d \<noteq> 0 \<longrightarrow>
      (\<exists>k K. createStream_num ctx rcpt d ty iv L = (Inr k, K) \<and> stream_counter K = Some k
         \<and> streams K k \<noteq> None)"
    using nn
    by (auto simp: createStream_num_def Let_def storeStream_def scheduleNextPayment_num_def)
  have h: "0 < transferredCoins ctx \<and> 0 < d \<and> transferredCoins ctx / d < 2 powr (- 1075) \<longrightarrow>
      ndiv (transferredCoins ctx) d = 0"
    by (auto intro!: rate_underflow)
  have i: "2 powr (- 1074) \<le> transferredCoins ctx / d \<longrightarrow> ndiv (transferredCoins ctx) d \<noteq> 0"
    using rate_positive[of "transferredCoins ctx" d] by auto
  from a b c d e f g h i show ?thesis by (intro conjI)
qed

theorem createStream_validation_witness:
  "createStream_num (alice_at_num 0) ''bob'' 3600 0 60 fresh_ledger_num
     = (Inl InvalidAmount, fresh_ledger_num)
   \<and> createStream_num (alice_funds_num 3600) ''bob'' 0 0 60 fresh_ledger_num
     = (Inl InvalidDuration, fresh_ledger_num)
   \<and> createStream_num (alice_funds_num 3600) ''bob'' 3600 0 0 fresh_ledger_num
     = (Inl InvalidInterval, fresh_ledger_num)
   \<and> createStream_num (alice_funds_num (2 powr (- 1074))) ''bob'' 4 0 60 fresh_ledger_num
     = (Inl DegenerateRate, fresh_ledger_num)
   \<and> stream_counter (snd (createStream_num (alice_funds_num (2 powr (- 1074))) ''bob'' 4 0 60
        fresh_ledger_num)) = Some 0
   \<and> streams (snd (createStream_num (alice_funds_num (2 powr (- 1074))) ''bob'' 4 0 60
        fresh_ledger_num)) = Map.empty
   \<and> ndiv 3600 3601 \<noteq> 0
   \<and> (\<exists>k K. createStream_num (alice_funds_num 3600) ''bob'' 3601 0 60 fresh_ledger_num
          = (Inr k, K) \<and> stream_counter K = Some k \<and> streams K k \<noteq> None)"
proof -
  let ?tiny = "alice_funds_num (2 powr (- 1074))" and ?af = "alice_funds_num 3600"
  have a: "transferredCoins (alice_at_num 0) \<le> 0" by (simp add: alice_at_num_def)
  have b: "0 < transferredCoins ?af \<and> (0::number) \<le> 0" by (simp add: alice_funds_num_def)
  have c: "0 < transferredCoins ?af \<and> (0::number) < 3600 \<and> (0::number) \<le> 0"
    by (simp add: alice_funds_num_def)
  have d0: "0 < transferredCoins ?tiny \<and> (0::number) < 4
      \<and> transferredCoins ?tiny / 4 < 2 powr (- 1075)"
    by (simp add: alice_funds_num_def quarter_of_smallest)
  have e0: "2 powr (- 1074) \<le> transferredCoins ?af / 3601"
    using smallest_below_half by (simp add: alice_funds_num_def)
  note v = createStream_validation
  from v [of "alice_at_num 0" "''bob''" 3600 0 60 fresh_ledger_num] a
  have 1: "createStream_num (alice_at_num 0) ''bob'' 3600 0 60 fresh_ledger_num
      = (Inl InvalidAmount, fresh_ledger_num)"
    by blast
  from v [of ?af "''bob''" 0 0 60 fresh_ledger_num] b
  have 2: "createStream_num ?af ''bob'' 0 0 60 fresh_ledger_num
      = (Inl InvalidDuration, fresh_ledger_num)"
    by blast
  from v [of ?af "''bob''" 3600 0 0 fresh_ledger_num] c
  have 3: "createStream_num ?af ''bob'' 3600 0 0 fresh_ledger_num
      = (Inl InvalidInterval, fresh_ledger_num)"
    by blast
  from v [where ctx = ?tiny and d = 4] d0 have "ndiv (transferredCoins ?tiny) 4 = 0" by blast
  with d0 have d: "0 < transferredCoins ?tiny \<and> (0::number) < 4 \<and> (0::number) < 60
      \<and> ndiv (transferredCoins ?tiny) 4 = 0" by simp
  from v [of ?tiny "''bob''" 4 0 60 fresh_ledger_num] d
  have 4: "createStream_num ?tiny ''bob'' 4 0 60 fresh_ledger_num
      = (Inl DegenerateRate, fresh_ledger_num)"
    by blast
  from v [where ctx = ?af and d = 3601] e0 have 5: "ndiv (transferredCoins ?af) 3601 \<noteq> 0" by blast
  then have g: "0 < transferredCoins ?af \<and> (0::number) < 3601 \<and> (0::number) < 60
      \<and> ndiv (transferredCoins ?af) 3601 \<noteq> 0"
    by (simp add: alice_funds_num_def)
  from v [of ?af "''bob''" 3601 0 60 fresh_ledger_num] g
  have 6: "\<exists>k K. createStream_num ?af ''bob'' 3601 0 60 fresh_ledger_num = (Inr k, K)
      \<and> stream_counter K = Some k \<and> streams K k \<noteq> None"
    by blast
  from 5 have 7: "ndiv 3600 3601 \<noteq> 0" by (simp add: alice_funds_num_def)
  from 4 have 8: "stream_counter (snd (createStream_num ?tiny ''bob'' 4 0 60 fresh_ledger_num))
      = Some 0"
    "streams (snd (createStream_num ?tiny ''bob'' 4 0 60 fresh_ledger_num)) = Map.empty"
    by (simp_all add: fresh_ledger_num_def)
  from 1 2 3 4 6 7 8 show ?thesis by (intro conjI)
qed





text \<open>
  Claim C8. On a stream that exists, \<^verbatim>\<open>pauseStream\<close>, \<^verbatim>\<open>resumeStream\<close> and
  \<^verbatim>\<open>cancelStream\<close> called by anyone but the sender fail with \<open>Unauthorized\<close>, whatever the
  state of the stream, and return the ledger unchanged.
\<close>

theorem unauthorized_rejected:
  assumes "streams L i = Some s" and "caller ctx \<noteq> sender s"
  shows "pauseStream ctx i L = (Inl Unauthorized, L)
       \<and> resumeStream ctx i L = (Inl Unauthorized, L)
       \<and> cancelStream ctx i L = (Inl Unauthorized, L)"
  using assms by (auto simp: pauseStream_def resumeStream_def cancelStream_def)

theorem unauthorized_rejected_witness:
  "streams (sample_ledger sample_stream) 1 = Some sample_stream
   \<and> caller \<lparr>caller = ''mallory'', timestamp = 60000, transferredCoins = 0\<rparr>
        \<noteq> sender sample_stream
   \<and> pauseStream \<lparr>caller = ''mallory'', timestamp = 60000, transferredCoins = 0\<rparr> 1
        (sample_ledger sample_stream) = (Inl Unauthorized, sample_ledger sample_stream)
   \<and> resumeStream \<lparr>caller = ''mallory'', timestamp = 60000, transferredCoins = 0\<rparr> 1
        (sample_ledger sample_stream) = (Inl Unauthorized, sample_ledger sample_stream)
   \<and> cancelStream \<lparr>caller = ''mallory'', timestamp = 60000, transferredCoins = 0\<rparr> 1
        (sample_ledger sample_stream) = (Inl Unauthorized, sample_ledger sample_stream)"
proof -
  let ?m = "\<lparr>caller = ''mallory'', timestamp = 60000, transferredCoins = 0\<rparr>"
  have h1: "streams (sample_ledger sample_stream) 1 = Some sample_stream"
    by (simp add: sample_ledger_def)
  have h2: "caller ?m \<noteq> sender sample_stream" by (simp add: sample_stream_def)
  from unauthorized_rejected [OF h1 h2] h1 h2 show ?thesis by simp
qed

text \<open>
  Claim C9. Take a stream as \<^verbatim>\<open>createStream\<close> made it and any sequence of invocations (on
  this stream, on others, or creating new ones) under a clock that does not go back, with the
  stream counter a natural number that stays within \<open>2 ^ 53\<close>. Between any two points of the
  sequence \<open>withdrawnAmount\<close> does not decrease and \<open>lastPaymentTime\<close> does not decrease. At
  any point of the sequence, on the live stream: a call of \<^verbatim>\<open>processStreamPayment\<close> before
  \<open>endTime\<close> whose amount is positive and fits under the total adds the amount to
  \<open>withdrawnAmount\<close> and sets \<open>lastPaymentTime\<close> to the current time, and one whose amount is
  not leaves the record as it is; a call at or after \<open>endTime\<close> (the final payment) marks the
  stream cancelled, sets \<open>withdrawnAmount\<close> to the total when something remained, and leaves
  \<open>lastPaymentTime\<close> as it is; \<^verbatim>\<open>resumeStream\<close> by the sender on the paused stream sets
  \<open>lastPaymentTime\<close> to the current time.

  So not every successful payment sets \<open>lastPaymentTime\<close> to the current time: on the stream
  of 3600 coins over 3600 seconds, after a first payment at 60000, the payment at 7200000
  (past the end) sends the remaining 3540 coins, and \<open>lastPaymentTime\<close> is still 60000.
\<close>

theorem monotonicity:
  assumes cr: "createStream_num ctx0 rcpt d ty iv L0 = (Inr i, L1)"
    and mono: "clock_monotonic (timestamp ctx0) (pre @ post)"
    and room: "i \<in> \<nat> \<and> i + of_nat (length (pre @ post)) \<le> 2 ^ 53"
  shows "\<exists>s s'. streams (run_num pre L1) i = Some s
           \<and> streams (run_num (pre @ post) L1) i = Some s'
           \<and> withdrawnAmount s \<le> withdrawnAmount s'
           \<and> lastPaymentTime s \<le> lastPaymentTime s'
           \<and> (\<forall>ctx. post = [(ctx, Process i)] \<and> \<not> isCancelled s \<and> \<not> isPaused s \<longrightarrow>
                s' = (if endTime s \<le> timestamp ctx
                      then (if 0 < nsub (totalAmount s) (withdrawnAmount s)
                            then s\<lparr>withdrawnAmount := totalAmount s\<rparr> else s)\<lparr>isCancelled := True\<rparr>
                      else let amount = ndiv (nmul (nsub (timestamp ctx) (lastPaymentTime s))
                                              (ratePerSecond s)) 1000
                           in if 0 < amount \<and> nadd (withdrawnAmount s) amount \<le> totalAmount s
                              then s\<lparr>withdrawnAmount := nadd (withdrawnAmount s) amount,
                                     lastPaymentTime := timestamp ctx\<rparr>
                              else s))
           \<and> (\<forall>ctx. post = [(ctx, Resume i)] \<and> caller ctx = sender s \<and> \<not> isCancelled s
                  \<and> isPaused s \<longrightarrow>
                s' = s\<lparr>isPaused := False, lastPaymentTime := timestamp ctx\<rparr>)"
proof -
  from room have r: "i \<in> \<nat>" "i + of_nat (length (pre @ post)) \<le> 2 ^ 53" by simp_all
  from run_num_monotone[OF cr mono r]
  obtain s s' where s: "streams (run_num pre L1) i = Some s"
    "streams (run_num (pre @ post) L1) i = Some s'"
    "withdrawnAmount s \<le> withdrawnAmount s'" "lastPaymentTime s \<le> lastPaymentTime s'"
    by blast
  have p: "s' = (if endTime s \<le> timestamp ctx
                      then (if 0 < nsub (totalAmount s) (withdrawnAmount s)
                            then s\<lparr>withdrawnAmount := totalAmount s\<rparr> else s)\<lparr>isCancelled := True\<rparr>
                      else let amount = ndiv (nmul (nsub (timestamp ctx) (lastPaymentTime s))
                                              (ratePerSecond s)) 1000
                           in if 0 < amount \<and> nadd (withdrawnAmount s) amount \<le> totalAmount s
                              then s\<lparr>withdrawnAmount := nadd (withdrawnAmount s) amount,
                                     lastPaymentTime := timestamp ctx\<rparr>
                              else s)"
    if "post = [(ctx, Process i)] \<and> \<not> isCancelled s \<and> \<not> isPaused s" for ctx
  proof -
    from that have po: "post = [(ctx, Process i)]" and live: "\<not> isCancelled s" "\<not> isPaused s"
      by simp_all
    from s(2) have e: "streams (snd (processStreamPayment_num ctx i (run_num pre L1))) i = Some s'"
      unfolding po run_num_append by simp
    show ?thesis
    proof (cases "endTime s \<le> timestamp ctx")
      case True
      from final_payment_num[OF s(1) live True] e True show ?thesis by simp
    next
      case False
      from regular_payment_num_record[OF s(1) live False] e False show ?thesis by simp
    qed
  qed
  have q: "s' = s\<lparr>isPaused := False, lastPaymentTime := timestamp ctx\<rparr>"
    if "post = [(ctx, Resume i)] \<and> caller ctx = sender s \<and> \<not> isCancelled s \<and> isPaused s"
    for ctx
  proof -
    from that have po: "post = [(ctx, Resume i)]"
      and ok: "caller ctx = sender s" "\<not> isCancelled s" "isPaused s" by simp_all
    from s(2) have e: "streams (snd (resumeStream_num ctx i (run_num pre L1))) i = Some s'"
      unfolding po run_num_append by simp
    from resume_num_record[OF s(1) ok] e show ?thesis by simp
  qed
  from s p q show ?thesis by blast
qed

theorem monotonicity_witness:
  "createStream_num (alice_funds_num 3600) ''bob'' 3600 0 60 fresh_ledger_num
     = (Inr 1, sample_ledger_num sample_stream_num)
   \<and> clock_monotonic (timestamp (alice_funds_num 3600))
        ([(alice_at_num 60000, Process 1), (alice_at_num 90000, Pause 1)]
         @ [(alice_at_num 120000, Resume 1)])
   \<and> (1 :: number) \<in> \<nat>
   \<and> (1 :: number) + of_nat (length ([(alice_at_num 60000, Process 1), (alice_at_num 90000, Pause 1)]
         @ [(alice_at_num 120000, Resume 1)])) \<le> 2 ^ 53
   \<and> (\<exists>s s'. streams (run_num [(alice_at_num 60000, Process 1), (alice_at_num 90000, Pause 1)]
                    (sample_ledger_num sample_stream_num)) 1 = Some s
         \<and> streams (run_num ([(alice_at_num 60000, Process 1), (alice_at_num 90000, Pause 1)]
                    @ [(alice_at_num 120000, Resume 1)]) (sample_ledger_num sample_stream_num)) 1
             = Some s'
         \<and> withdrawnAmount s \<le> withdrawnAmount s'
         \<and> lastPaymentTime s \<le> lastPaymentTime s'
         \<and> s = sample_stream_num\<lparr>withdrawnAmount := 60, lastPaymentTime := 60000,
                                  isPaused := True\<rparr>
         \<and> s' = s\<lparr>isPaused := False, lastPaymentTime := 120000\<rparr>)
   \<and> clock_monotonic (timestamp (alice_funds_num 3600))
        ([(alice_at_num 60000, Process 1)] @ [(alice_at_num 120000, Process 1)])
   \<and> (\<exists>s s'. streams (run_num [(alice_at_num 60000, Process 1)]
                    (sample_ledger_num sample_stream_num)) 1 = Some s
         \<and> streams (run_num ([(alice_at_num 60000, Process 1)]
                    @ [(alice_at_num 120000, Process 1)]) (sample_ledger_num sample_stream_num)) 1
             = Some s'
         \<and> withdrawnAmount s \<le> withdrawnAmount s'
         \<and> lastPaymentTime s \<le> lastPaymentTime s'
         \<and> s = sample_stream_num\<lparr>withdrawnAmount := 60, lastPaymentTime := 60000\<rparr>
         \<and> s' = s\<lparr>withdrawnAmount := 120, lastPaymentTime := 120000\<rparr>)
   \<and> clock_monotonic (timestamp (alice_funds_num 3600))
        ([(alice_at_num 60000, Process 1)] @ [(alice_at_num 7200000, Process 1)])
   \<and> (\<exists>s s'. streams (run_num [(alice_at_num 60000, Process 1)]
                    (sample_ledger_num sample_stream_num)) 1 = Some s
         \<and> streams (run_num ([(alice_at_num 60000, Process 1)]
                    @ [(alice_at_num 7200000, Process 1)]) (sample_ledger_num sample_stream_num)) 1
             = Some s'
         \<and> withdrawnAmount s \<le> withdrawnAmount s'
         \<and> lastPaymentTime s \<le> lastPaymentTime s'
         \<and> s = sample_stream_num\<lparr>withdrawnAmount := 60, lastPaymentTime := 60000\<rparr>
         \<and> s' = s\<lparr>withdrawnAmount := 3600, isCancelled := True\<rparr>)"
proof -
  let ?L = "sample_ledger_num sample_stream_num"
  let ?p = "(alice_at_num 60000, Process 1)"
  let ?pre = "[?p, (alice_at_num 90000, Pause 1)]"
  let ?s1 = "sample_stream_num\<lparr>withdrawnAmount := 60, lastPaymentTime := 60000\<rparr>"
  let ?s2 = "sample_stream_num\<lparr>withdrawnAmount := 60, lastPaymentTime := 60000,
                               isPaused := True\<rparr>"
  have h1: "createStream_num (alice_funds_num 3600) ''bob'' 3600 0 60 fresh_ledger_num
      = (Inr 1, ?L)"
    by (simp add: createStream_num_def num_eval sample_ledger_num_def sample_stream_num_def)
  have ma: "clock_monotonic (timestamp (alice_funds_num 3600))
      (?pre @ [(alice_at_num 120000, Resume 1)])"
    and mb: "clock_monotonic (timestamp (alice_funds_num 3600))
      ([?p] @ [(alice_at_num 120000, Process 1)])"
    and mc: "clock_monotonic (timestamp (alice_funds_num 3600))
      ([?p] @ [(alice_at_num 7200000, Process 1)])"
    by (simp_all add: alice_funds_num_def alice_at_num_def)
  have n: "(1 :: number) \<in> \<nat>" by simp
  have ra: "(1 :: number) \<in> \<nat>
      \<and> (1 :: number) + of_nat (length (?pre @ [(alice_at_num 120000, Resume 1)])) \<le> 2 ^ 53"
    and rb: "(1 :: number) \<in> \<nat>
      \<and> (1 :: number) + of_nat (length ([?p] @ [(alice_at_num 120000, Process 1)])) \<le> 2 ^ 53"
    and rc: "(1 :: number) \<in> \<nat>
      \<and> (1 :: number) + of_nat (length ([?p] @ [(alice_at_num 7200000, Process 1)])) \<le> 2 ^ 53"
    by simp_all
  have e1: "streams (run_num [?p] ?L) 1 = Some ?s1"
    by (simp add: processStreamPayment_num_def num_eval sample_ledger_num_def
          sample_stream_num_def)
  have e2: "streams (run_num ?pre ?L) 1 = Some ?s2"
    by (simp add: processStreamPayment_num_def pauseStream_num_def num_eval
          sample_ledger_num_def sample_stream_num_def)
  have f2: "caller (alice_at_num 120000) = sender ?s2 \<and> \<not> isCancelled ?s2 \<and> isPaused ?s2"
    by (simp add: alice_at_num_def sample_stream_num_def)
  have f1: "\<not> isCancelled ?s1 \<and> \<not> isPaused ?s1" by (simp add: sample_stream_num_def)
  have v1: "(if endTime ?s1 \<le> timestamp (alice_at_num 120000)
             then (if 0 < nsub (totalAmount ?s1) (withdrawnAmount ?s1)
                   then ?s1\<lparr>withdrawnAmount := totalAmount ?s1\<rparr> else ?s1)\<lparr>isCancelled := True\<rparr>
             else let amount = ndiv (nmul (nsub (timestamp (alice_at_num 120000))
                                     (lastPaymentTime ?s1)) (ratePerSecond ?s1)) 1000
                  in if 0 < amount \<and> nadd (withdrawnAmount ?s1) amount \<le> totalAmount ?s1
                     then ?s1\<lparr>withdrawnAmount := nadd (withdrawnAmount ?s1) amount,
                              lastPaymentTime := timestamp (alice_at_num 120000)\<rparr>
                     else ?s1)
      = ?s1\<lparr>withdrawnAmount := 120, lastPaymentTime := 120000\<rparr>"
    by (simp add: num_eval sample_stream_num_def)
  have v2: "(if endTime ?s1 \<le> timestamp (alice_at_num 7200000)
             then (if 0 < nsub (totalAmount ?s1) (withdrawnAmount ?s1)
                   then ?s1\<lparr>withdrawnAmount := totalAmount ?s1\<rparr> else ?s1)\<lparr>isCancelled := True\<rparr>
             else let amount = ndiv (nmul (nsub (timestamp (alice_at_num 7200000))
                                     (lastPaymentTime ?s1)) (ratePerSecond ?s1)) 1000
                  in if 0 < amount \<and> nadd (withdrawnAmount ?s1) amount \<le> totalAmount ?s1
                     then ?s1\<lparr>withdrawnAmount := nadd (withdrawnAmount ?s1) amount,
                              lastPaymentTime := timestamp (alice_at_num 7200000)\<rparr>
                     else ?s1)
      = ?s1\<lparr>withdrawnAmount := 3600, isCancelled := True\<rparr>"
    by (simp add: num_eval sample_stream_num_def)
  have t: "timestamp (alice_at_num 120000) = 120000" by (simp add: alice_at_num_def)
  from monotonicity [OF h1 ma ra]
  obtain s s' where a: "streams (run_num ?pre ?L) 1 = Some s"
    "streams (run_num (?pre @ [(alice_at_num 120000, Resume 1)]) ?L) 1 = Some s'"
    "withdrawnAmount s \<le> withdrawnAmount s'" "lastPaymentTime s \<le> lastPaymentTime s'"
    "\<forall>ctx. [(alice_at_num 120000, Resume 1)] = [(ctx, Resume 1)] \<and> caller ctx = sender s
        \<and> \<not> isCancelled s \<and> isPaused s \<longrightarrow>
        s' = s\<lparr>isPaused := False, lastPaymentTime := timestamp ctx\<rparr>"
    by blast
  from a(1) e2 have sa: "s = ?s2" by simp
  from a(5) f2 have "s' = s\<lparr>isPaused := False, lastPaymentTime := timestamp (alice_at_num 120000)\<rparr>"
    unfolding sa by blast
  then have "s' = s\<lparr>isPaused := False, lastPaymentTime := 120000\<rparr>" unfolding t .
  with a sa have A: "\<exists>s s'. streams (run_num ?pre ?L) 1 = Some s
         \<and> streams (run_num (?pre @ [(alice_at_num 120000, Resume 1)]) ?L) 1 = Some s'
         \<and> withdrawnAmount s \<le> withdrawnAmount s'
         \<and> lastPaymentTime s \<le> lastPaymentTime s'
         \<and> s = ?s2 \<and> s' = s\<lparr>isPaused := False, lastPaymentTime := 120000\<rparr>"
    by blast
  from monotonicity [OF h1 mb rb]
  obtain u u' where b: "streams (run_num [?p] ?L) 1 = Some u"
    "streams (run_num ([?p] @ [(alice_at_num 120000, Process 1)]) ?L) 1 = Some u'"
    "withdrawnAmount u \<le> withdrawnAmount u'" "lastPaymentTime u \<le> lastPaymentTime u'"
    "\<forall>ctx. [(alice_at_num 120000, Process 1)] = [(ctx, Process 1)] \<and> \<not> isCancelled u
        \<and> \<not> isPaused u \<longrightarrow>
        u' = (if endTime u \<le> timestamp ctx
              then (if 0 < nsub (totalAmount u) (withdrawnAmount u)
                    then u\<lparr>withdrawnAmount := totalAmount u\<rparr> else u)\<lparr>isCancelled := True\<rparr>
              else let amount = ndiv (nmul (nsub (timestamp ctx) (lastPaymentTime u))
                                      (ratePerSecond u)) 1000
                   in if 0 < amount \<and> nadd (withdrawnAmount u) amount \<le> totalAmount u
                      then u\<lparr>withdrawnAmount := nadd (withdrawnAmount u) amount,
                             lastPaymentTime := timestamp ctx\<rparr>
                      else u)"
    by blast
  from b(1) e1 have ub: "u = ?s1" by simp
  from b(5) f1 have "u' = ?s1\<lparr>withdrawnAmount := 120, lastPaymentTime := 120000\<rparr>"
    unfolding ub v1[symmetric] by blast
  with b ub have B: "\<exists>s s'. streams (run_num [?p] ?L) 1 = Some s
         \<and> streams (run_num ([?p] @ [(alice_at_num 120000, Process 1)]) ?L) 1 = Some s'
         \<and> withdrawnAmount s \<le> withdrawnAmount s'
         \<and> lastPaymentTime s \<le> lastPaymentTime s'
         \<and> s = ?s1 \<and> s' = s\<lparr>withdrawnAmount := 120, lastPaymentTime := 120000\<rparr>"
    by blast
  from monotonicity [OF h1 mc rc]
  obtain w w' where c: "streams (run_num [?p] ?L) 1 = Some w"
    "streams (run_num ([?p] @ [(alice_at_num 7200000, Process 1)]) ?L) 1 = Some w'"
    "withdrawnAmount w \<le> withdrawnAmount w'" "lastPaymentTime w \<le> lastPaymentTime w'"
    "\<forall>ctx. [(alice_at_num 7200000, Process 1)] = [(ctx, Process 1)] \<and> \<not> isCancelled w
        \<and> \<not> isPaused w \<longrightarrow>
        w' = (if endTime w \<le> timestamp ctx
              then (if 0 < nsub (totalAmount w) (withdrawnAmount w)
                    then w\<lparr>withdrawnAmount := totalAmount w\<rparr> else w)\<lparr>isCancelled := True\<rparr>
              else let amount = ndiv (nmul (nsub (timestamp ctx) (lastPaymentTime w))
                                      (ratePerSecond w)) 1000
                   in if 0 < amount \<and> nadd (withdrawnAmount w) amount \<le> totalAmount w
                      then w\<lparr>withdrawnAmount := nadd (withdrawnAmount w) amount,
                             lastPaymentTime := timestamp ctx\<rparr>
                      else w)"
    by blast
  from c(1) e1 have wc: "w = ?s1" by simp
  from c(5) f1 have "w' = ?s1\<lparr>withdrawnAmount := 3600, isCancelled := True\<rparr>"
    unfolding wc v2[symmetric] by blast
  with c wc have C: "\<exists>s s'. streams (run_num [?p] ?L) 1 = Some s
         \<and> streams (run_num ([?p] @ [(alice_at_num 7200000, Process 1)]) ?L) 1 = Some s'
         \<and> withdrawnAmount s \<le> withdrawnAmount s'
         \<and> lastPaymentTime s \<le> lastPaymentTime s'
         \<and> s = ?s1 \<and> s' = s\<lparr>withdrawnAmount := 3600, isCancelled := True\<rparr>"
    by blast
  from ra have r2: "(1 :: number) + of_nat (length (?pre @ [(alice_at_num 120000, Resume 1)]))
      \<le> 2 ^ 53" by (rule conjunct2)
  from h1 ma n r2 A mb B mc C show ?thesis by (intro conjI)
qed

theorem final_payment_keeps_checkpoint:
  "createStream_num (alice_funds_num 3600) ''bob'' 3600 0 60 fresh_ledger_num
     = (Inr 1, sample_ledger_num sample_stream_num)
   \<and> run_num [(alice_at_num 60000, Process 1)] (sample_ledger_num sample_stream_num)
     = \<lparr>streams = [1 \<mapsto> sample_stream_num\<lparr>withdrawnAmount := 60, lastPaymentTime := 60000\<rparr>],
        stream_counter = Some 1, transfers = [(''bob'', 60)],
        deferred = [(1, 60000), (1, 60000)]\<rparr>
   \<and> processStreamPayment_num (alice_at_num 7200000) 1
        \<lparr>streams = [1 \<mapsto> sample_stream_num\<lparr>withdrawnAmount := 60, lastPaymentTime := 60000\<rparr>],
         stream_counter = Some 1, transfers = [(''bob'', 60)],
         deferred = [(1, 60000), (1, 60000)]\<rparr>
     = (Inr (),
        \<lparr>streams = [1 \<mapsto> sample_stream_num\<lparr>withdrawnAmount := 3600, lastPaymentTime := 60000,
                                            isCancelled := True\<rparr>],
         stream_counter = Some 1, transfers = [(''bob'', 60), (''bob'', 3540)],
         deferred = [(1, 60000), (1, 60000)]\<rparr>)"
proof -
  have a: "createStream_num (alice_funds_num 3600) ''bob'' 3600 0 60 fresh_ledger_num
     = (Inr 1, sample_ledger_num sample_stream_num)"
    by (simp add: createStream_num_def num_eval sample_ledger_num_def sample_stream_num_def)
  have b: "run_num [(alice_at_num 60000, Process 1)] (sample_ledger_num sample_stream_num)
     = \<lparr>streams = [1 \<mapsto> sample_stream_num\<lparr>withdrawnAmount := 60, lastPaymentTime := 60000\<rparr>],
        stream_counter = Some 1, transfers = [(''bob'', 60)],
        deferred = [(1, 60000), (1, 60000)]\<rparr>"
    by (simp add: processStreamPayment_num_def num_eval sample_ledger_num_def
          sample_stream_num_def)
  have c: "processStreamPayment_num (alice_at_num 7200000) 1
        \<lparr>streams = [1 \<mapsto> sample_stream_num\<lparr>withdrawnAmount := 60, lastPaymentTime := 60000\<rparr>],
         stream_counter = Some 1, transfers = [(''bob'', 60)],
         deferred = [(1, 60000), (1, 60000)]\<rparr>
     = (Inr (),
        \<lparr>streams = [1 \<mapsto> sample_stream_num\<lparr>withdrawnAmount := 3600, lastPaymentTime := 60000,
                                            isCancelled := True\<rparr>],
         stream_counter = Some 1, transfers = [(''bob'', 60), (''bob'', 3540)],
         deferred = [(1, 60000), (1, 60000)]\<rparr>)"
    by (simp add: processStreamPayment_num_def num_eval sample_stream_num_def)
  from a b c show ?thesis by (intro conjI)
qed



end
